theory Spec2Isabelle
  imports Complex_Main
begin

section \<open>Domain tree store\<close>

text \<open>
  The explorer keeps its topic tree as JavaScript objects that refer to each other.
  Object identity matters for the claims about mutation and sharing, so the objects live
  in an explicit store: a list of records, an address being an index into it. Allocation
  appends; an assignment to a field is a list update.

  A \<open>Domain\<close> object has the fields \<open>id\<close>, \<open>name\<close>, \<open>children\<close> (\<open>null\<close> or an array of
  objects), \<open>source\<close> and the optional \<open>position\<close>. Arrays and position objects are never
  written after they are created anywhere in the component, so they are kept as values
  inside the record; numbers are reals.
\<close>

type_synonym addr = nat

record domain =
  d_id :: string
  d_name :: string
  d_children :: "addr list option"
  d_source :: "string option"
  d_position :: "(real \<times> real) option"

type_synonym heap = "domain list"

text \<open>
  \<open>cloneDomainTree\<close>: the object literal is allocated first with \<open>children: null\<close>, the
  position is copied, then the children are cloned by \<open>map\<close> and assigned. The recursion
  follows the references in the store, so it carries a depth budget; \<open>None\<close> means that the
  budget ran out or that a reference points outside the store.
\<close>

fun cloneDomainTree :: "nat \<Rightarrow> heap \<Rightarrow> addr \<Rightarrow> (heap \<times> addr) option"
  and cloneChildren :: "nat \<Rightarrow> heap \<Rightarrow> addr list \<Rightarrow> (heap \<times> addr list) option" where
  "cloneDomainTree 0 h a = None"
| "cloneDomainTree (Suc n) h a =
     (if a < length h then
        (let node = h ! a;
             newNode = \<lparr>d_id = d_id node, d_name = d_name node, d_children = None,
                        d_source = d_source node, d_position = d_position node\<rparr>;
             newAddr = length h;
             h1 = h @ [newNode]
         in case d_children node of
              None \<Rightarrow> Some (h1, newAddr)
            | Some cs \<Rightarrow>
                (case cloneChildren n h1 cs of
                   None \<Rightarrow> None
                 | Some (h2, cs') \<Rightarrow>
                     Some (h2[newAddr := (h2 ! newAddr)\<lparr>d_children := Some cs'\<rparr>], newAddr)))
      else None)"
| "cloneChildren n h [] = Some (h, [])"
| "cloneChildren n h (c # cs) =
     (case cloneDomainTree n h c of
        None \<Rightarrow> None
      | Some (h1, c') \<Rightarrow>
          (case cloneChildren n h1 cs of
             None \<Rightarrow> None
           | Some (h2, cs') \<Rightarrow> Some (h2, c' # cs')))"

text \<open>\<open>currentNode?.children?.find(child => child.name === name)\<close>\<close>

fun findChild :: "heap \<Rightarrow> addr list option \<Rightarrow> string \<Rightarrow> addr option" where
  "findChild h None name = None"
| "findChild h (Some cs) name = List.find (\<lambda>child. d_name (h ! child) = name) cs"

text \<open>The loop over the path, shared by \<open>findNodeByPath\<close> and \<open>updateNodeByPath\<close>.\<close>

fun walkPath :: "heap \<Rightarrow> addr \<Rightarrow> string list \<Rightarrow> addr option" where
  "walkPath h currentNode [] = Some currentNode"
| "walkPath h currentNode (name # path) =
     (case findChild h (d_children (h ! currentNode)) name of
        None \<Rightarrow> None
      | Some nextNode \<Rightarrow> walkPath h nextNode path)"

definition findNodeByPath :: "heap \<Rightarrow> addr \<Rightarrow> string list \<Rightarrow> addr option" where
  "findNodeByPath h rootNode path = (if path = [] then Some rootNode else walkPath h rootNode path)"

text \<open>
  \<open>new Map(currentNode.children?.map(c => [c.id, c]))\<close>: a later entry with the same key
  overwrites an earlier one; \<open>new Map(undefined)\<close> is empty.
\<close>

definition existingChildrenMap :: "heap \<Rightarrow> addr list option \<Rightarrow> (string \<rightharpoonup> addr)" where
  "existingChildrenMap h children =
     (case children of
        None \<Rightarrow> Map.empty
      | Some cs \<Rightarrow> foldl (\<lambda>m c. m(d_id (h ! c) \<mapsto> c)) Map.empty cs)"

text \<open>
  The callback of \<open>newChildren.map\<close>: the spread \<open>{ ...newChild, position: existing.position }\<close>
  allocates a new object; otherwise the very object \<open>newChild\<close> is returned.
\<close>

definition mergeChild :: "heap \<Rightarrow> (string \<rightharpoonup> addr) \<Rightarrow> addr \<Rightarrow> heap \<times> addr" where
  "mergeChild h existingMap newChild =
     (case existingMap (d_id (h ! newChild)) of
        None \<Rightarrow> (h, newChild)
      | Some existing \<Rightarrow>
          (case d_position (h ! existing) of
             None \<Rightarrow> (h, newChild)
           | Some p \<Rightarrow> (h @ [(h ! newChild)\<lparr>d_position := Some p\<rparr>], length h)))"

fun mergeChildren :: "heap \<Rightarrow> (string \<rightharpoonup> addr) \<Rightarrow> addr list \<Rightarrow> heap \<times> addr list" where
  "mergeChildren h existingMap [] = (h, [])"
| "mergeChildren h existingMap (newChild # rest) =
     (case mergeChild h existingMap newChild of
        (h1, c) \<Rightarrow> (case mergeChildren h1 existingMap rest of (h2, cs) \<Rightarrow> (h2, c # cs)))"

definition updateNodeByPath ::
  "nat \<Rightarrow> heap \<Rightarrow> addr \<Rightarrow> string list \<Rightarrow> addr list \<Rightarrow> (heap \<times> addr) option" where
  "updateNodeByPath n h rootNode path newChildren =
     (case cloneDomainTree n h rootNode of
        None \<Rightarrow> None
      | Some (h1, newRoot) \<Rightarrow>
          (case walkPath h1 newRoot path of
             None \<Rightarrow> Some (h1, newRoot)
           | Some currentNode \<Rightarrow>
               (case mergeChildren h1 (existingChildrenMap h1 (d_children (h1 ! currentNode)))
                       newChildren of
                  (h2, cs) \<Rightarrow>
                    Some (h2[currentNode := (h2 ! currentNode)\<lparr>d_children := Some cs\<rparr>],
                          newRoot))))"

subsection \<open>The tree a store holds at an address\<close>

datatype dtree =
  DTree (t_id: string) (t_name: string) (t_children: "dtree list option")
        (t_source: "string option") (t_position: "(real \<times> real) option")

text \<open>
  \<open>treeAt lo h a t\<close>: the records reachable from address \<open>a\<close> in \<open>h\<close> form the finite tree
  \<open>t\<close>, and every one of them lives at an address \<open>\<ge> lo\<close>.
\<close>

inductive treeAt :: "nat \<Rightarrow> heap \<Rightarrow> addr \<Rightarrow> dtree \<Rightarrow> bool" where
  unresolved:
    "lo \<le> a \<Longrightarrow> a < length h \<Longrightarrow> d_children (h ! a) = None \<Longrightarrow>
     treeAt lo h a (DTree (d_id (h ! a)) (d_name (h ! a)) None (d_source (h ! a)) (d_position (h ! a)))"
| materialized:
    "lo \<le> a \<Longrightarrow> a < length h \<Longrightarrow> d_children (h ! a) = Some cs \<Longrightarrow>
     list_all2 (treeAt lo h) cs ts \<Longrightarrow>
     treeAt lo h a (DTree (d_id (h ! a)) (d_name (h ! a)) (Some ts) (d_source (h ! a)) (d_position (h ! a)))"

fun height :: "dtree \<Rightarrow> nat" where
  "height (DTree i nm cs s p) =
     (case cs of None \<Rightarrow> 0 | Some ts \<Rightarrow> Suc (fold max (map height ts) 0))"

text \<open>\<open>node.children || []\<close>\<close>

definition childrenOf :: "heap \<Rightarrow> addr \<Rightarrow> addr list" where
  "childrenOf h a = (case d_children (h ! a) of None \<Rightarrow> [] | Some cs \<Rightarrow> cs)"

text \<open>What \<open>newChildren.map\<close> returns for one element, relative to the store \<open>h\<close> it started from.\<close>

definition merged :: "heap \<Rightarrow> (string \<rightharpoonup> addr) \<Rightarrow> heap \<Rightarrow> addr \<Rightarrow> addr \<Rightarrow> bool" where
  "merged h m h2 newChild c \<longleftrightarrow>
     (case m (d_id (h ! newChild)) of
        None \<Rightarrow> c = newChild
      | Some e \<Rightarrow>
          (case d_position (h ! e) of
             None \<Rightarrow> c = newChild
           | Some p \<Rightarrow> length h \<le> c \<and> c < length h2 \<and>
                       h2 ! c = (h ! newChild)\<lparr>d_position := Some p\<rparr>))"

text \<open>\<open>reaches h a b\<close>: the record at \<open>b\<close> is reachable from \<open>a\<close> through \<open>children\<close>.\<close>

inductive reaches :: "heap \<Rightarrow> addr \<Rightarrow> addr \<Rightarrow> bool" where
  self: "reaches h a a"
| child: "d_children (h ! a) = Some cs \<Longrightarrow> c \<in> set cs \<Longrightarrow> reaches h c b \<Longrightarrow> reaches h a b"

text \<open>
  The store in which load-more has allocated the node \<open>Music\<close> (address 2) for a root
  whose only child is \<open>Art\<close>, the store that \<open>updateNodeByPath\<close> returns for it, and the
  tree at the root.
\<close>

definition shared_heap :: heap where
  "shared_heap =
     [\<lparr>d_id = ''root'', d_name = ''SparkSphere'', d_children = Some [1], d_source = None,
       d_position = None\<rparr>,
      \<lparr>d_id = ''Art'', d_name = ''Art'', d_children = None, d_source = Some ''ai'',
       d_position = None\<rparr>,
      \<lparr>d_id = ''Music'', d_name = ''Music'', d_children = None, d_source = Some ''ai'',
       d_position = None\<rparr>]"

definition shared_result :: heap where
  "shared_result = shared_heap @
     [\<lparr>d_id = ''root'', d_name = ''SparkSphere'', d_children = Some [1, 2], d_source = None,
       d_position = None\<rparr>,
      \<lparr>d_id = ''Art'', d_name = ''Art'', d_children = None, d_source = Some ''ai'',
       d_position = None\<rparr>]"

definition shared_tree :: dtree where
  "shared_tree = DTree ''root'' ''SparkSphere''
      (Some [DTree ''Art'' ''Art'' None (Some ''ai'') None]) None None"

text \<open>
  A root whose children are \<open>A\<close> with the cached position \<open>(10, 10)\<close> and \<open>B\<close> without one,
  and three newly fetched nodes \<open>A\<close>, \<open>B\<close>, \<open>C\<close> at the addresses 3, 4 and 5.
\<close>

definition pos_heap :: heap where
  "pos_heap =
     [\<lparr>d_id = ''root'', d_name = ''SparkSphere'', d_children = Some [1, 2], d_source = None,
       d_position = None\<rparr>,
      \<lparr>d_id = ''A'', d_name = ''A'', d_children = None, d_source = Some ''ai'',
       d_position = Some (10, 10)\<rparr>,
      \<lparr>d_id = ''B'', d_name = ''B'', d_children = None, d_source = Some ''ai'',
       d_position = None\<rparr>,
      \<lparr>d_id = ''A'', d_name = ''A'', d_children = None, d_source = Some ''ai'',
       d_position = None\<rparr>,
      \<lparr>d_id = ''B'', d_name = ''B'', d_children = None, d_source = Some ''ai'',
       d_position = None\<rparr>,
      \<lparr>d_id = ''C'', d_name = ''C'', d_children = None, d_source = Some ''ai'',
       d_position = None\<rparr>]"

definition pos_tree :: dtree where
  "pos_tree = DTree ''root'' ''SparkSphere''
      (Some [DTree ''A'' ''A'' None (Some ''ai'') (Some (10, 10)),
             DTree ''B'' ''B'' None (Some ''ai'') None]) None None"

subsection \<open>Load more\<close>

text \<open>
  \<open>String.prototype.toLowerCase\<close> (lines 348 and 350) is a built-in of the language, not code
  of the component, and it lower-cases every cased letter of Unicode. It is the parameter
  \<open>toLowerCase\<close> of the definitions below, so that what is proved of them holds of the
  built-in, whatever it does to a name.
\<close>

text \<open>The object literal \<open>{ id: name, name, children: null, source: 'ai' }\<close>.\<close>

definition newDomain :: "string \<Rightarrow> domain" where
  "newDomain name =
     \<lparr>d_id = name, d_name = name, d_children = None, d_source = Some ''ai'', d_position = None\<rparr>"

text \<open>\<open>new Set(existing.map(c => c.name.toLowerCase()))\<close>\<close>

definition existingSet :: "(string \<Rightarrow> string) \<Rightarrow> heap \<Rightarrow> addr list \<Rightarrow> string set" where
  "existingSet toLowerCase h existing = set (map (\<lambda>c. toLowerCase (d_name (h ! c))) existing)"

text \<open>\<open>newNames.filter(n => !existingSet.has(n.toLowerCase()))\<close>\<close>

definition uniqueNew ::
  "(string \<Rightarrow> string) \<Rightarrow> heap \<Rightarrow> addr list \<Rightarrow> string list \<Rightarrow> string list" where
  "uniqueNew toLowerCase h existing newNames =
     filter (\<lambda>n. toLowerCase n \<notin> existingSet toLowerCase h existing) newNames"

text \<open>
  \<open>[...existing, ...newDomains]\<close>: the new objects are allocated in the order of
  \<open>uniqueNew\<close>; the list holds the existing children themselves, then the new objects.
\<close>

definition appendNewDomains ::
  "(string \<Rightarrow> string) \<Rightarrow> heap \<Rightarrow> addr list \<Rightarrow> string list \<Rightarrow> heap \<times> addr list" where
  "appendNewDomains toLowerCase h existing newNames =
     (let newDomains = map newDomain (uniqueNew toLowerCase h existing newNames)
      in (h @ newDomains, existing @ [length h ..< length h + length newDomains]))"

text \<open>
  \<open>handleLoadMore\<close> once the names have arrived (lines 341 to 360): nothing happens for an
  empty answer or an unresolvable path; the result is the store and the tree handed to
  \<open>setDomainTree\<close>.
\<close>

definition handleLoadMore ::
  "(string \<Rightarrow> string) \<Rightarrow> nat \<Rightarrow> heap \<Rightarrow> addr \<Rightarrow> string list \<Rightarrow> string list \<Rightarrow>
   (heap \<times> addr) option" where
  "handleLoadMore toLowerCase n h domainTree currentPath newNames =
     (if newNames = [] then Some (h, domainTree)
      else
        (case findNodeByPath h domainTree currentPath of
           None \<Rightarrow> Some (h, domainTree)
         | Some freshParent \<Rightarrow>
             (case appendNewDomains toLowerCase h (childrenOf h freshParent) newNames of
                (h1, cs) \<Rightarrow> updateNodeByPath n h1 domainTree currentPath cs)))"

text \<open>
  The examples use names written in the letters A to Z and a to z only. On such a name
  the built-in sets bit 5 of every upper-case letter and keeps the other characters, which
  is what \<open>lowerLatin\<close> does; it stands for the built-in in the examples and nowhere else.
\<close>

definition lowerLatinChar :: "char \<Rightarrow> char" where
  "lowerLatinChar c =
     (if 65 \<le> (of_char c :: nat) \<and> (of_char c :: nat) \<le> 90
      then Char (digit0 c) (digit1 c) (digit2 c) (digit3 c) (digit4 c) True (digit6 c) (digit7 c)
      else c)"

definition lowerLatin :: "string \<Rightarrow> string" where
  "lowerLatin s = map lowerLatinChar s"

text \<open>A root with the single child \<open>Art\<close>.\<close>

definition art_heap :: heap where
  "art_heap =
     [\<lparr>d_id = ''root'', d_name = ''SparkSphere'', d_children = Some [1], d_source = None,
       d_position = None\<rparr>,
      \<lparr>d_id = ''Art'', d_name = ''Art'', d_children = None, d_source = Some ''ai'',
       d_position = None\<rparr>]"

section \<open>Gesture controller\<close>

text \<open>
  The state the pointer handlers read and write: the React state \<open>zoomLevel\<close>,
  \<open>isPinchEnabled\<close>, \<open>pan\<close> and \<open>currentPath\<close>, and the refs. A state update is applied at
  once. \<open>activePointers\<close> is a JavaScript \<open>Map\<close>, which keeps its keys in insertion order:
  an association list. Coordinates, zoom and times are reals; a point \<open>{x, y}\<close> is a pair.
\<close>

record gesture =
  zoomLevel :: real
  isPinchEnabled :: bool
  pan :: "real \<times> real"
  isDragging :: bool
  lastPanPosition :: "real \<times> real"
  dragStartPos :: "real \<times> real"
  startDragTime :: real
  lastPointerType :: string
  activePointers :: "(nat \<times> (real \<times> real)) list"
  initialPinchDistance :: "real option"
  initialZoomLevel :: real
  currentPath :: "string list"

text \<open>The fields of a pointer event that the handlers read.\<close>

record pointerEvent =
  pointerId :: nat
  clientX :: real
  clientY :: real
  pointerType :: string

text \<open>The state of a freshly mounted view.\<close>

definition initialGesture :: "string list \<Rightarrow> gesture" where
  "initialGesture initialPath =
     \<lparr>zoomLevel = 1, isPinchEnabled = False, pan = (0, 0), isDragging = False,
      lastPanPosition = (0, 0), dragStartPos = (0, 0), startDragTime = 0,
      lastPointerType = ''touch'', activePointers = [], initialPinchDistance = None,
      initialZoomLevel = 1, currentPath = initialPath\<rparr>"

text \<open>\<open>Map.prototype.has\<close>, \<open>set\<close> (an existing key keeps its place) and \<open>delete\<close>.\<close>

definition mapHas :: "(nat \<times> 'v) list \<Rightarrow> nat \<Rightarrow> bool" where
  "mapHas m k = (k \<in> set (map fst m))"

fun mapSet :: "(nat \<times> 'v) list \<Rightarrow> nat \<Rightarrow> 'v \<Rightarrow> (nat \<times> 'v) list" where
  "mapSet [] k v = [(k, v)]"
| "mapSet ((k', v') # m) k v = (if k' = k then (k, v) # m else (k', v') # mapSet m k v)"

definition mapDelete :: "(nat \<times> 'v) list \<Rightarrow> nat \<Rightarrow> (nat \<times> 'v) list" where
  "mapDelete m k = filter (\<lambda>kv. fst kv \<noteq> k) m"

definition getDistance :: "real \<times> real \<Rightarrow> real \<times> real \<Rightarrow> real" where
  "getDistance p1 p2 = sqrt ((fst p2 - fst p1)\<^sup>2 + (snd p2 - snd p1)\<^sup>2)"

definition handleZoomIn :: "gesture \<Rightarrow> gesture" where
  "handleZoomIn s = s\<lparr>zoomLevel := min (zoomLevel s + 0.2) 2.0\<rparr>"

definition handleZoomOut :: "gesture \<Rightarrow> gesture" where
  "handleZoomOut s = s\<lparr>zoomLevel := max (zoomLevel s - 0.2) 0.6\<rparr>"

text \<open>The button \<open>onClick={() => setPinchEnabled(!isPinchEnabled)}\<close>.\<close>

definition togglePinch :: "gesture \<Rightarrow> gesture" where
  "togglePinch s = s\<lparr>isPinchEnabled := \<not> isPinchEnabled s\<rparr>"

text \<open>The effect that runs when \<open>currentPath\<close> has changed: zoom and pan are reset.\<close>

definition navigationReset :: "gesture \<Rightarrow> gesture" where
  "navigationReset s = s\<lparr>zoomLevel := 1, pan := (0, 0)\<rparr>"

text \<open>\<open>onPointerDown\<close>; \<open>now\<close> is the value of \<open>Date.now()\<close>.\<close>

definition onPointerDown :: "gesture \<Rightarrow> pointerEvent \<Rightarrow> real \<Rightarrow> gesture" where
  "onPointerDown s e now =
     (let pointers = mapSet (activePointers s) (pointerId e) (clientX e, clientY e);
          s1 = s\<lparr>activePointers := pointers\<rparr>
      in if length pointers = 2 \<and> isPinchEnabled s then
           (let points = map snd pointers
            in s1\<lparr>initialPinchDistance := Some (getDistance (points ! 0) (points ! 1)),
                  initialZoomLevel := zoomLevel s,
                  isDragging := False\<rparr>)
         else if length pointers = 1 then
           s1\<lparr>isDragging := False,
              lastPanPosition := (clientX e, clientY e),
              dragStartPos := (clientX e, clientY e),
              startDragTime := now,
              lastPointerType := pointerType e\<rparr>
         else s1)"

text \<open>
  A number or \<open>null\<close> used as a condition: \<open>null\<close> and \<open>0\<close> are falsy.
\<close>

definition truthy :: "real option \<Rightarrow> bool" where
  "truthy v = (case v of None \<Rightarrow> False | Some d \<Rightarrow> d \<noteq> 0)"

text \<open>The end of \<open>onPointerMove\<close>: the running delta is added to the pan offset.\<close>

definition panBy :: "gesture \<Rightarrow> pointerEvent \<Rightarrow> gesture" where
  "panBy s e =
     (let dx = clientX e - fst (lastPanPosition s);
          dy = clientY e - snd (lastPanPosition s)
      in s\<lparr>pan := (fst (pan s) + dx, snd (pan s) + dy),
            lastPanPosition := (clientX e, clientY e)\<rparr>)"

definition onPointerMove :: "gesture \<Rightarrow> pointerEvent \<Rightarrow> gesture" where
  "onPointerMove s e =
     (if \<not> mapHas (activePointers s) (pointerId e) then s
      else
        (let pointers = mapSet (activePointers s) (pointerId e) (clientX e, clientY e);
             s1 = s\<lparr>activePointers := pointers\<rparr>
         in if length pointers = 2 \<and> isPinchEnabled s \<and> truthy (initialPinchDistance s) then
              (let points = map snd pointers;
                   currentDistance = getDistance (points ! 0) (points ! 1);
                   ratio = currentDistance / the (initialPinchDistance s);
                   newZoom = min (max (initialZoomLevel s * ratio) 0.6) 2.5
               in s1\<lparr>zoomLevel := newZoom\<rparr>)
            else if length pointers \<noteq> 1 then s1
            else if \<not> isDragging s then
              (if pointerType e = ''mouse'' then panBy (s1\<lparr>isDragging := True\<rparr>) e
               else if getDistance (dragStartPos s) (clientX e, clientY e) > 10
                    then panBy (s1\<lparr>isDragging := True\<rparr>) e
               else s1)
            else panBy s1 e))"

text \<open>
  \<open>onPointerUp\<close>, which also serves \<open>onPointerLeave\<close>. The locals \<open>duration\<close> and
  \<open>totalDist\<close> are computed and never read.
\<close>

definition onPointerUp :: "gesture \<Rightarrow> pointerEvent \<Rightarrow> gesture" where
  "onPointerUp s e =
     (let pointers = mapDelete (activePointers s) (pointerId e);
          s1 = s\<lparr>activePointers := pointers\<rparr>;
          s2 = (if length pointers < 2 then s1\<lparr>initialPinchDistance := None\<rparr> else s1)
      in if length pointers = 0 then
           (let dist = getDistance (dragStartPos s) (clientX e, clientY e)
            in if pointerType e = ''mouse'' \<and> dist < 5 then s2\<lparr>isDragging := False\<rparr> else s2)
         else if length pointers = 1 then
           (let remaining = snd (hd pointers)
            in s2\<lparr>lastPanPosition := remaining, isDragging := True\<rparr>)
         else s2)"

text \<open>\<open>handleSelectDomain\<close> appends to the path; the navigation effect follows.\<close>

definition handleSelectDomain :: "gesture \<Rightarrow> string \<Rightarrow> gesture" where
  "handleSelectDomain s domainName =
     navigationReset (s\<lparr>currentPath := currentPath s @ [domainName]\<rparr>)"

definition handleDomainClickRequest :: "gesture \<Rightarrow> string \<Rightarrow> real \<Rightarrow> gesture" where
  "handleDomainClickRequest s domainName now =
     (if isDragging s then s
      else if lastPointerType s \<noteq> ''mouse'' \<and> now - startDragTime s > 150 then s
      else handleSelectDomain s domainName)"

text \<open>Everything that can happen to the controller, and a run of such events.\<close>

datatype event =
    PointerDown pointerEvent real
  | PointerMove pointerEvent
  | PointerUp pointerEvent
  | ZoomIn
  | ZoomOut
  | TogglePinch
  | ClickRequest string real
  | NavigationReset

fun step :: "gesture \<Rightarrow> event \<Rightarrow> gesture" where
  "step s (PointerDown e now) = onPointerDown s e now"
| "step s (PointerMove e) = onPointerMove s e"
| "step s (PointerUp e) = onPointerUp s e"
| "step s ZoomIn = handleZoomIn s"
| "step s ZoomOut = handleZoomOut s"
| "step s TogglePinch = togglePinch s"
| "step s (ClickRequest domainName now) = handleDomainClickRequest s domainName now"
| "step s NavigationReset = navigationReset s"

definition run :: "gesture \<Rightarrow> event list \<Rightarrow> gesture" where
  "run s es = foldl step s es"

text \<open>
  One pointer of one device going down, moving through the points \<open>moves\<close> and going up.
\<close>

definition pointerAt :: "nat \<Rightarrow> string \<Rightarrow> real \<times> real \<Rightarrow> pointerEvent" where
  "pointerAt pid ptype p = \<lparr>pointerId = pid, clientX = fst p, clientY = snd p, pointerType = ptype\<rparr>"

definition singlePointerGesture ::
  "gesture \<Rightarrow> nat \<Rightarrow> string \<Rightarrow> real \<times> real \<Rightarrow> real \<Rightarrow> (real \<times> real) list \<Rightarrow> real \<times> real \<Rightarrow> gesture" where
  "singlePointerGesture s pid ptype downPos downTime moves upPos =
     onPointerUp
       (foldl onPointerMove (onPointerDown s (pointerAt pid ptype downPos) downTime)
          (map (pointerAt pid ptype) moves))
       (pointerAt pid ptype upPos)"

text \<open>The zoom range.\<close>

definition zoom_ok :: "gesture \<Rightarrow> bool" where
  "zoom_ok s \<longleftrightarrow> 0.6 \<le> zoomLevel s \<and> zoomLevel s \<le> 2.5"

text \<open>What the handlers keep while one pointer \<open>pid\<close> is down.\<close>

definition tracking1 :: "nat \<Rightarrow> string \<Rightarrow> real \<times> real \<Rightarrow> real \<Rightarrow> gesture \<Rightarrow> bool" where
  "tracking1 pid ptype downPos downTime s \<longleftrightarrow>
     map fst (activePointers s) = [pid] \<and> dragStartPos s = downPos \<and>
     startDragTime s = downTime \<and> lastPointerType s = ptype"

text \<open>
  Example runs. Pinch is switched on, two fingers go down 10 units apart, and one of them
  moves away to 100 units.
\<close>

definition pinch_to_max :: "event list" where
  "pinch_to_max =
     [TogglePinch,
      PointerDown \<lparr>pointerId = 1, clientX = 0, clientY = 0, pointerType = ''touch''\<rparr> 0,
      PointerDown \<lparr>pointerId = 2, clientX = 10, clientY = 0, pointerType = ''touch''\<rparr> 5,
      PointerMove \<lparr>pointerId = 2, clientX = 100, clientY = 0, pointerType = ''touch''\<rparr>]"

text \<open>The same start of a pinch, before any move.\<close>

definition pinch_started :: gesture where
  "pinch_started = run (initialGesture [])
     [TogglePinch,
      PointerDown \<lparr>pointerId = 1, clientX = 0, clientY = 0, pointerType = ''touch''\<rparr> 0,
      PointerDown \<lparr>pointerId = 2, clientX = 10, clientY = 0, pointerType = ''touch''\<rparr> 5]"

text \<open>Two fingers go down while pinch is off; then the pinch button is tapped.\<close>

definition late_pinch :: gesture where
  "late_pinch = run (initialGesture [])
     [PointerDown \<lparr>pointerId = 1, clientX = 0, clientY = 0, pointerType = ''touch''\<rparr> 0,
      PointerDown \<lparr>pointerId = 2, clientX = 10, clientY = 0, pointerType = ''touch''\<rparr> 5,
      TogglePinch]"

definition spread_move :: pointerEvent where
  "spread_move = \<lparr>pointerId = 2, clientX = 20, clientY = 0, pointerType = ''touch''\<rparr>"

text \<open>
  A finger goes down; an up (or leave) event arrives for a pointer that never went down.
\<close>

definition touch_down :: pointerEvent where
  "touch_down = \<lparr>pointerId = 1, clientX = 5, clientY = 5, pointerType = ''touch''\<rparr>"

definition stray_up :: pointerEvent where
  "stray_up = \<lparr>pointerId = 2, clientX = 0, clientY = 0, pointerType = ''mouse''\<rparr>"

section \<open>Layout engine\<close>

text \<open>
  \<open>calculateChaoticLayout\<close> computes with JavaScript numbers. Here they are reals: the
  rounding of floating-point arithmetic is left out. Two things the function uses are
  not part of it and are parameters: \<open>calculateSphereSize\<close>, which is imported from the
  sphere component, and \<open>Math.random\<close>, given as the sequence \<open>random\<close> of the values its
  successive calls return.
\<close>

text \<open>\<open>Math.atan2(y, x)\<close>, the angle of the point \<open>(x, y)\<close> in \<open>(-\<pi>, \<pi>]\<close>.\<close>

definition atan2 :: "real \<Rightarrow> real \<Rightarrow> real" where
  "atan2 y x =
     (if 0 < x then arctan (y / x)
      else if x < 0 then (if 0 \<le> y then arctan (y / x) + pi else arctan (y / x) - pi)
      else if 0 < y then pi / 2
      else if y < 0 then - (pi / 2)
      else 0)"

text \<open>A working node \<open>{ ...domain, radius, x, y }\<close>.\<close>

record layoutNode =
  n_domain :: domain
  n_radius :: real
  n_x :: real
  n_y :: real





text \<open>The body of the loop \<open>for (const node of nodes)\<close>: the pull, then the exclusion push.\<close>

definition attract :: "real \<Rightarrow> layoutNode \<Rightarrow> layoutNode" where
  "attract centerRadius node =
     (let dxToCenter = 50 - n_x node;
          dyToCenter = 50 - n_y node;
          pullForce = 0.015;
          node1 = node\<lparr>n_x := n_x node + dxToCenter * pullForce,
                      n_y := n_y node + dyToCenter * pullForce\<rparr>;
          distanceFromCenter = sqrt (dxToCenter * dxToCenter + dyToCenter * dyToCenter);
          minDistanceFromCenter = centerRadius + n_radius node + 4
      in if distanceFromCenter < minDistanceFromCenter \<and> distanceFromCenter > 0 then
           (let overlap = minDistanceFromCenter - distanceFromCenter;
                angle = atan2 dyToCenter dxToCenter
            in node1\<lparr>n_x := n_x node1 - overlap * cos angle,
                     n_y := n_y node1 - overlap * sin angle\<rparr>)
         else node1)"





text \<open>
  The two distances the relaxation computes: \<open>distanceFromCenter\<close> of a node, and
  \<open>distance\<close> of a pair of nodes.
\<close>

definition centerDistance :: "layoutNode \<Rightarrow> real" where
  "centerDistance node =
     sqrt ((50 - n_x node) * (50 - n_x node) + (50 - n_y node) * (50 - n_y node))"







section \<open>Properties of the tree store\<close>

lemma treeAt_bounds: "treeAt lo h a t \<Longrightarrow> lo \<le> a \<and> a < length h"
  by (erule treeAt.cases) auto

lemma treeAt_fields:
  "treeAt lo h a t \<Longrightarrow>
     t_id t = d_id (h ! a) \<and> t_name t = d_name (h ! a) \<and> t_source t = d_source (h ! a) \<and>
     t_position t = d_position (h ! a)"
  by (erule treeAt.cases) auto

lemma treeAt_children:
  "treeAt lo h a t \<Longrightarrow>
     rel_option (list_all2 (treeAt lo h)) (d_children (h ! a)) (t_children t)"
  by (erule treeAt.cases) auto

lemma treeAt_intro:
  assumes "lo \<le> a" "a < length h"
    and "t_id t = d_id (h ! a)" "t_name t = d_name (h ! a)" "t_source t = d_source (h ! a)"
    and "t_position t = d_position (h ! a)"
    and "rel_option (list_all2 (treeAt lo h)) (d_children (h ! a)) (t_children t)"
  shows "treeAt lo h a t"
proof (cases t)
  case (DTree i nm cs s p)
  show ?thesis
  proof (cases "d_children (h ! a)")
    case None
    with assms DTree have "cs = None" by (cases cs) auto
    with assms DTree None treeAt.unresolved [of lo a h] show ?thesis by auto
  next
    case (Some as)
    with assms DTree obtain ts where "cs = Some ts" "list_all2 (treeAt lo h) as ts"
      by (cases cs) auto
    with assms DTree Some treeAt.materialized [of lo a h as ts] show ?thesis by auto
  qed
qed

text \<open>Transfer of a tree between two stores that agree on its records.\<close>

lemma treeAt_transfer:
  "treeAt lo h a t \<Longrightarrow> lo' \<le> lo \<Longrightarrow> length h \<le> length h' \<Longrightarrow>
   (\<And>b. lo \<le> b \<Longrightarrow> b < length h \<Longrightarrow> h' ! b = h ! b) \<Longrightarrow> treeAt lo' h' a t"
proof (induction rule: treeAt.induct)
  case (unresolved lo a h)
  then have "h' ! a = h ! a" by simp
  with unresolved treeAt.unresolved [of lo' a h'] show ?case by simp
next
  case (materialized lo a h cs ts)
  then have eq: "h' ! a = h ! a" by simp
  from materialized have "list_all2 (treeAt lo' h') cs ts"
    by (auto elim!: list_all2_mono)
  with materialized eq treeAt.materialized [of lo' a h' cs ts] show ?case by simp
qed

lemma height_child:
  "t_children t = Some ts \<Longrightarrow> c \<in> set ts \<Longrightarrow> height c < height t"
proof -
  have "\<And>k. c \<in> set ts \<Longrightarrow> height c \<le> fold max (map height ts) k"
  proof (induction ts)
    case Nil then show ?case by simp
  next
    case (Cons x xs)
    have mono: "\<And>k. k \<le> fold max (map height xs) k"
      by (induction xs) (auto intro: order_trans [OF max.cobounded2])
    from Cons show ?case
      by (auto intro: order_trans [OF max.cobounded1 mono])
  qed
  then show "t_children t = Some ts \<Longrightarrow> c \<in> set ts \<Longrightarrow> height c < height t"
    by (cases t) (auto simp: less_Suc_eq_le)
qed

lemma cloneChildren_ok:
  assumes IH: "\<And>t lo h a. t \<in> set ts \<Longrightarrow> treeAt lo h a t \<Longrightarrow>
      \<exists>ext. cloneDomainTree m h a = Some (h @ ext, length h) \<and>
            treeAt (length h) (h @ ext) (length h) t"
  shows "list_all2 (treeAt lo h) as ts \<Longrightarrow>
     \<exists>ext cs'. cloneChildren m h as = Some (h @ ext, cs') \<and>
               list_all2 (treeAt (length h) (h @ ext)) cs' ts"
  using IH
proof (induction ts arbitrary: as h lo)
  case Nil
  then show ?case by simp
next
  case (Cons t ts)
  from Cons.prems(1) obtain c as' where as: "as = c # as'" and c: "treeAt lo h c t"
    and rest: "list_all2 (treeAt lo h) as' ts"
    by (auto simp: list_all2_Cons2)
  from Cons.prems(2) [of t lo h c] c obtain e1 where
    cl: "cloneDomainTree m h c = Some (h @ e1, length h)"
    and t1: "treeAt (length h) (h @ e1) (length h) t" by auto
  have "list_all2 (treeAt lo (h @ e1)) as' ts"
    using rest by (rule list_all2_mono) (auto elim!: treeAt_transfer simp: nth_append)
  from Cons.IH [OF this] Cons.prems(2) obtain e2 cs' where
    cl2: "cloneChildren m (h @ e1) as' = Some ((h @ e1) @ e2, cs')"
    and t2: "list_all2 (treeAt (length (h @ e1)) ((h @ e1) @ e2)) cs' ts"
    by (metis list.set_intros(2))
  have h1: "treeAt (length h) (h @ e1 @ e2) (length h) t"
    using t1 by (rule treeAt_transfer) (auto simp: nth_append)
  have h2: "list_all2 (treeAt (length h) (h @ e1 @ e2)) cs' ts"
    using t2 by (rule list_all2_mono) (auto elim!: treeAt_transfer)
  from cl cl2 h1 h2 as show ?case
    by (intro exI [of _ "e1 @ e2"] exI [of _ "length h # cs'"]) simp
qed

lemma cloneDomainTree_ok:
  "treeAt lo h a t \<Longrightarrow> height t < n \<Longrightarrow>
     \<exists>ext. cloneDomainTree n h a = Some (h @ ext, length h) \<and>
           treeAt (length h) (h @ ext) (length h) t"
proof (induction t arbitrary: lo h a n)
  case (DTree i nm cs s p)
  let ?t = "DTree i nm cs s p"
  from DTree.prems(2) obtain m where n: "n = Suc m" by (cases n) auto
  from DTree.prems(1) have a: "a < length h" and flds: "i = d_id (h ! a)" "nm = d_name (h ! a)"
    "s = d_source (h ! a)" "p = d_position (h ! a)"
    and ch: "rel_option (list_all2 (treeAt lo h)) (d_children (h ! a)) cs"
    using treeAt_bounds [of lo h a ?t] treeAt_fields [of lo h a ?t]
      treeAt_children [of lo h a ?t] by auto
  define newNode where "newNode = \<lparr>d_id = d_id (h ! a), d_name = d_name (h ! a), d_children = None,
      d_source = d_source (h ! a), d_position = d_position (h ! a)\<rparr>"
  show ?case
  proof (cases cs)
    case None
    with ch have chN: "d_children (h ! a) = None" by (cases "d_children (h ! a)") auto
    have "treeAt (length h) (h @ [newNode]) (length h) ?t"
      by (rule treeAt_intro) (simp_all add: newNode_def flds None)
    with chN a n show ?thesis
      by (intro exI [of _ "[newNode]"]) (simp add: newNode_def Let_def)
  next
    case (Some ts)
    with ch obtain as where chS: "d_children (h ! a) = Some as"
      and as: "list_all2 (treeAt lo h) as ts"
      by (cases "d_children (h ! a)") auto
    have as1: "list_all2 (treeAt lo (h @ [newNode])) as ts"
      using as by (rule list_all2_mono) (auto elim!: treeAt_transfer simp: nth_append)
    have hts: "\<And>t. t \<in> set ts \<Longrightarrow> height t < m"
      using height_child [of ?t ts] DTree.prems(2) n Some by fastforce
    have "\<exists>ext cs'. cloneChildren m (h @ [newNode]) as = Some ((h @ [newNode]) @ ext, cs') \<and>
               list_all2 (treeAt (length (h @ [newNode])) ((h @ [newNode]) @ ext)) cs' ts"
    proof (rule cloneChildren_ok [OF _ as1])
      fix t lo h a
      assume "t \<in> set ts" "treeAt lo h a t"
      then show "\<exists>ext. cloneDomainTree m h a = Some (h @ ext, length h) \<and>
            treeAt (length h) (h @ ext) (length h) t"
        using DTree.IH hts Some by simp
    qed
    then obtain e2 cs' where cl: "cloneChildren m (h @ [newNode]) as = Some ((h @ [newNode]) @ e2, cs')"
      and t2: "list_all2 (treeAt (Suc (length h)) (h @ newNode # e2)) cs' ts" by auto
    let ?h' = "h @ (newNode\<lparr>d_children := Some cs'\<rparr>) # e2"
    have upd: "((h @ [newNode]) @ e2)[length h := (((h @ [newNode]) @ e2) ! length h)\<lparr>d_children := Some cs'\<rparr>] = ?h'"
      by (simp add: list_update_append nth_append)
    have t3: "list_all2 (treeAt (length h) ?h') cs' ts"
      using t2 by (rule list_all2_mono) (auto elim!: treeAt_transfer simp: nth_append)
    have "treeAt (length h) ?h' (length h) ?t"
      using t3 by (intro treeAt_intro) (simp_all add: newNode_def flds Some)
    with chS a n cl upd show ?thesis
      by (intro exI [of _ "(newNode\<lparr>d_children := Some cs'\<rparr>) # e2"])
         (simp add: newNode_def [symmetric] Let_def)
  qed
qed

lemma treeAt_unique: "treeAt lo h a t \<Longrightarrow> treeAt lo' h a t' \<Longrightarrow> t = t'"
proof (induction t arbitrary: a t')
  case (DTree i nm cs s p)
  let ?t = "DTree i nm cs s p"
  have f: "i = t_id t'" "nm = t_name t'" "s = t_source t'" "p = t_position t'"
    using treeAt_fields [OF DTree.prems(1)] treeAt_fields [OF DTree.prems(2)] by simp_all
  have c1: "rel_option (list_all2 (treeAt lo h)) (d_children (h ! a)) cs"
    using treeAt_children [OF DTree.prems(1)] by simp
  have c2: "rel_option (list_all2 (treeAt lo' h)) (d_children (h ! a)) (t_children t')"
    using treeAt_children [OF DTree.prems(2)] by simp
  have "cs = t_children t'"
  proof (cases cs)
    case None
    with c1 c2 show ?thesis
      by (cases "d_children (h ! a)"; cases "t_children t'") auto
  next
    case (Some ts)
    with c1 c2 obtain as ts' where as: "d_children (h ! a) = Some as"
      "list_all2 (treeAt lo h) as ts" and ts': "t_children t' = Some ts'"
      "list_all2 (treeAt lo' h) as ts'"
      by (cases "d_children (h ! a)"; cases "t_children t'") auto
    have "ts = ts'"
    proof (rule nth_equalityI)
      show "length ts = length ts'"
        using as ts' by (auto dest!: list_all2_lengthD)
    next
      fix k assume k: "k < length ts"
      then have kk: "treeAt lo h (as ! k) (ts ! k)" "treeAt lo' h (as ! k) (ts' ! k)"
        using as ts' by (auto dest: list_all2_nthD2 list_all2_nthD simp: list_all2_lengthD)
      show "ts ! k = ts' ! k"
        using DTree.IH [OF _ _ kk] Some k by simp
    qed
    with Some ts' show ?thesis by simp
  qed
  with f show ?case by (cases t') simp
qed

text \<open>Looking a name up among the children of two copies of one tree.\<close>

lemma find_corr:
  "list_all2 (treeAt lo h) as ts \<Longrightarrow> list_all2 (treeAt lo' h') as' ts \<Longrightarrow>
   rel_option (\<lambda>c c'. \<exists>t'. t' \<in> set ts \<and> treeAt lo h c t' \<and> treeAt lo' h' c' t')
     (List.find (\<lambda>c. d_name (h ! c) = nm) as) (List.find (\<lambda>c. d_name (h' ! c) = nm) as')"
proof (induction ts arbitrary: as as')
  case Nil
  then show ?case by simp
next
  case (Cons t ts)
  from Cons.prems obtain c cs c' cs' where as: "as = c # cs" "treeAt lo h c t"
    "list_all2 (treeAt lo h) cs ts" and as': "as' = c' # cs'" "treeAt lo' h' c' t"
    "list_all2 (treeAt lo' h') cs' ts"
    by (auto simp: list_all2_Cons2)
  have nm: "d_name (h ! c) = d_name (h' ! c')"
    using treeAt_fields [OF as(2)] treeAt_fields [OF as'(2)] by simp
  show ?case
  proof (cases "d_name (h ! c) = nm")
    case True
    with nm as as' show ?thesis by auto
  next
    case False
    have "rel_option (\<lambda>c c'. \<exists>t'. t' \<in> set ts \<and> treeAt lo h c t' \<and> treeAt lo' h' c' t')
      (List.find (\<lambda>c. d_name (h ! c) = nm) cs) (List.find (\<lambda>c. d_name (h' ! c) = nm) cs')"
      using Cons.IH [OF as(3) as'(3)] .
    then have "rel_option (\<lambda>c c'. \<exists>t'. t' \<in> set (t # ts) \<and> treeAt lo h c t' \<and> treeAt lo' h' c' t')
      (List.find (\<lambda>c. d_name (h ! c) = nm) cs) (List.find (\<lambda>c. d_name (h' ! c) = nm) cs')"
      by (rule option.rel_mono_strong) auto
    with False nm as as' show ?thesis by simp
  qed
qed

lemma findChild_corr:
  assumes "treeAt lo h a t" "treeAt lo' h' a' t"
  shows "rel_option (\<lambda>c c'. \<exists>t'. height t' < height t \<and> treeAt lo h c t' \<and> treeAt lo' h' c' t')
     (findChild h (d_children (h ! a)) nm) (findChild h' (d_children (h' ! a')) nm)"
proof (cases "t_children t")
  case None
  with treeAt_children [OF assms(1)] treeAt_children [OF assms(2)] show ?thesis
    by (cases "d_children (h ! a)"; cases "d_children (h' ! a')") auto
next
  case (Some ts)
  with treeAt_children [OF assms(1)] treeAt_children [OF assms(2)]
  obtain as as' where as: "d_children (h ! a) = Some as" "list_all2 (treeAt lo h) as ts"
    and as': "d_children (h' ! a') = Some as'" "list_all2 (treeAt lo' h') as' ts"
    by (cases "d_children (h ! a)"; cases "d_children (h' ! a')") auto
  have "rel_option (\<lambda>c c'. \<exists>t'. t' \<in> set ts \<and> treeAt lo h c t' \<and> treeAt lo' h' c' t')
     (List.find (\<lambda>c. d_name (h ! c) = nm) as) (List.find (\<lambda>c. d_name (h' ! c) = nm) as')"
    using find_corr [OF as(2) as'(2)] .
  then have "rel_option (\<lambda>c c'. \<exists>t'. height t' < height t \<and> treeAt lo h c t' \<and> treeAt lo' h' c' t')
     (List.find (\<lambda>c. d_name (h ! c) = nm) as) (List.find (\<lambda>c. d_name (h' ! c) = nm) as')"
    by (rule option.rel_mono_strong) (use height_child [OF Some] in blast)
  with as as' show ?thesis by simp
qed

lemma walkPath_corr:
  "treeAt lo h a t \<Longrightarrow> treeAt lo' h' a' t \<Longrightarrow>
   rel_option (\<lambda>c c'. \<exists>t'. height t' \<le> height t \<and> (path \<noteq> [] \<longrightarrow> height t' < height t) \<and>
                  treeAt lo h c t' \<and> treeAt lo' h' c' t')
     (walkPath h a path) (walkPath h' a' path)"
proof (induction path arbitrary: a a' t)
  case Nil
  then show ?case by auto
next
  case (Cons nm path)
  from findChild_corr [OF Cons.prems, of nm] show ?case
  proof (cases rule: option.rel_cases)
    case None
    then show ?thesis by simp
  next
    case (Some c c')
    then obtain t' where t': "height t' < height t" "treeAt lo h c t'" "treeAt lo' h' c' t'"
      by auto
    have "rel_option (\<lambda>c c'. \<exists>t''. height t'' \<le> height t' \<and> (path \<noteq> [] \<longrightarrow> height t'' < height t') \<and>
                  treeAt lo h c t'' \<and> treeAt lo' h' c' t'')
     (walkPath h c path) (walkPath h' c' path)"
      using Cons.IH [OF t'(2,3)] .
    then have "rel_option (\<lambda>c c'. \<exists>t''. height t'' \<le> height t \<and> (nm # path \<noteq> [] \<longrightarrow> height t'' < height t) \<and>
                  treeAt lo h c t'' \<and> treeAt lo' h' c' t'')
     (walkPath h c path) (walkPath h' c' path)"
    proof (rule option.rel_mono_strong)
      fix z z' assume "\<exists>t''. height t'' \<le> height t' \<and> (path \<noteq> [] \<longrightarrow> height t'' < height t') \<and>
                  treeAt lo h z t'' \<and> treeAt lo' h' z' t''"
      then obtain t'' where "height t'' \<le> height t'" "treeAt lo h z t''" "treeAt lo' h' z' t''"
        by auto
      with t'(1) show "\<exists>t''. height t'' \<le> height t \<and> (nm # path \<noteq> [] \<longrightarrow> height t'' < height t) \<and>
                  treeAt lo h z t'' \<and> treeAt lo' h' z' t''"
        by (intro exI [of _ t'']) auto
    qed
    with Some show ?thesis by simp
  qed
qed

lemma walkPath_tree:
  assumes "treeAt lo h a t" "walkPath h a path = Some c"
  shows "\<exists>t'. height t' \<le> height t \<and> (path \<noteq> [] \<longrightarrow> height t' < height t) \<and> treeAt lo h c t'"
  using walkPath_corr [OF assms(1) assms(1), of path] assms(2) by auto

lemma findChild_tree:
  assumes "treeAt lo h a t" "findChild h (d_children (h ! a)) nm = Some c"
  shows "\<exists>t'. treeAt lo h c t'"
  using findChild_corr [OF assms(1) assms(1), of nm] assms(2) by auto

text \<open>Writing the children field of the node a walk ends in does not disturb the walk.\<close>

lemma walkPath_update:
  assumes h': "length h \<le> length h'" "\<And>b. b < length h \<Longrightarrow> b \<noteq> cur \<Longrightarrow> h' ! b = h ! b"
    "d_name (h' ! cur) = d_name (h ! cur)"
  shows "treeAt lo h a t \<Longrightarrow> walkPath h a path = Some cur \<Longrightarrow> walkPath h' a path = Some cur"
proof (induction path arbitrary: a t)
  case Nil
  then show ?case by simp
next
  case (Cons nm path)
  from Cons.prems(2) obtain c where fc: "findChild h (d_children (h ! a)) nm = Some c"
    and w: "walkPath h c path = Some cur"
    by (auto split: option.splits)
  from walkPath_tree [OF Cons.prems] obtain t' where "height t' < height t" "treeAt lo h cur t'"
    by auto
  with Cons.prems(1) have ne: "cur \<noteq> a" using treeAt_unique by blast
  have a: "a < length h" using treeAt_bounds [OF Cons.prems(1)] by simp
  with ne h'(2) have eq: "h' ! a = h ! a" by simp
  have names: "\<And>b. b < length h \<Longrightarrow> d_name (h' ! b) = d_name (h ! b)"
    using h'(2,3) by metis
  have "findChild h' (d_children (h ! a)) nm = findChild h (d_children (h ! a)) nm"
  proof (cases "d_children (h ! a)")
    case None
    then show ?thesis by simp
  next
    case (Some as)
    with treeAt_children [OF Cons.prems(1)] obtain ts where "list_all2 (treeAt lo h) as ts"
      by (cases "t_children t") auto
    then have "\<And>b. b \<in> set as \<Longrightarrow> b < length h"
      by (metis in_set_conv_nth list_all2_conv_all_nth treeAt_bounds)
    with Some names show ?thesis by (auto intro: find_cong)
  qed
  with fc eq have fc': "findChild h' (d_children (h' ! a)) nm = Some c" by simp
  from findChild_tree [OF Cons.prems(1) fc] obtain tc where "treeAt lo h c tc" by auto
  from Cons.IH [OF this w] fc' show ?case by simp
qed

text \<open>The identity map of the existing children: the last child with a given id wins.\<close>

lemma foldl_upd_none:
  "\<forall>c\<in>set cs. f c \<noteq> k \<Longrightarrow> foldl (\<lambda>m c. m(f c \<mapsto> c)) m0 cs k = m0 k"
  by (induction cs arbitrary: m0) auto

lemma foldl_upd_last:
  "j < length cs \<Longrightarrow> f (cs ! j) = k \<Longrightarrow> \<forall>i<length cs. j < i \<longrightarrow> f (cs ! i) \<noteq> k \<Longrightarrow>
   foldl (\<lambda>m c. m(f c \<mapsto> c)) m0 cs k = Some (cs ! j)"
proof (induction cs arbitrary: m0 j)
  case Nil
  then show ?case by simp
next
  case (Cons c cs)
  show ?case
  proof (cases j)
    case 0
    have "\<forall>x\<in>set cs. f x \<noteq> k"
    proof
      fix x assume "x \<in> set cs"
      then obtain i where i: "i < length cs" "x = cs ! i" by (auto simp: in_set_conv_nth)
      with Cons.prems(3) 0 have "f ((c # cs) ! Suc i) \<noteq> k" by (metis Suc_less_eq length_Cons zero_less_Suc)
      with i show "f x \<noteq> k" by simp
    qed
    from foldl_upd_none [OF this, of "m0(f c \<mapsto> c)"] 0 Cons.prems show ?thesis
      by (simp only: foldl_Cons nth_Cons_0) simp
  next
    case (Suc j')
    with Cons.prems have "j' < length cs" "f (cs ! j') = k"
      "\<forall>i<length cs. j' < i \<longrightarrow> f (cs ! i) \<noteq> k" by auto
    from Cons.IH [OF this, of "m0(f c \<mapsto> c)"] Suc show ?thesis
      by (simp only: foldl_Cons nth_Cons_Suc)
  qed
qed

lemma foldl_upd_range:
  "foldl (\<lambda>m c. m(f c \<mapsto> c)) m0 cs k = Some e \<Longrightarrow> e \<in> set cs \<or> m0 k = Some e"
proof (induction cs arbitrary: m0)
  case Nil
  then show ?case by simp
next
  case (Cons c cs)
  from Cons.prems have "foldl (\<lambda>m c. m(f c \<mapsto> c)) (m0(f c \<mapsto> c)) cs k = Some e"
    by (simp only: foldl_Cons)
  from Cons.IH [OF this] show ?case by (auto split: if_splits)
qed

lemma merged_ext: "merged h m h2 nc c \<Longrightarrow> merged h m (h2 @ e) nc c"
  by (auto simp: merged_def nth_append split: option.splits)

lemma mergeChildren_ok:
  assumes m: "\<forall>k e. m k = Some e \<longrightarrow> e < length h"
  shows "\<forall>c\<in>set ncs. c < length h \<Longrightarrow> mergeChildren (h @ e0) m ncs = (h2, cs') \<Longrightarrow>
    \<exists>e2. h2 = h @ e0 @ e2 \<and> list_all2 (merged h m h2) ncs cs'"
proof (induction ncs arbitrary: e0 h2 cs')
  case Nil
  then show ?case by auto
next
  case (Cons nc ncs)
  obtain h1 c where mc: "mergeChild (h @ e0) m nc = (h1, c)" by (cases "mergeChild (h @ e0) m nc")
  obtain h2' cs2 where mr: "mergeChildren h1 m ncs = (h2', cs2)" by (cases "mergeChildren h1 m ncs")
  from Cons.prems(2) mc mr have res: "h2 = h2'" "cs' = c # cs2" by auto
  from Cons.prems(1) have nc: "nc < length h" by simp
  have "\<exists>e1. h1 = h @ e0 @ e1 \<and> merged h m h1 nc c"
  proof (cases "m (d_id (h ! nc))")
    case None
    with mc nc show ?thesis by (auto simp: mergeChild_def merged_def nth_append)
  next
    case (Some e)
    with m have e: "e < length h" by simp
    show ?thesis
    proof (cases "d_position (h ! e)")
      case None
      with Some mc nc e show ?thesis by (auto simp: mergeChild_def merged_def nth_append)
    next
      case (Some p)
      with \<open>m (d_id (h ! nc)) = Some e\<close> mc nc e show ?thesis
        by (intro exI [of _ "[(h ! nc)\<lparr>d_position := Some p\<rparr>]"])
           (auto simp: mergeChild_def merged_def nth_append)
    qed
  qed
  then obtain e1 where h1: "h1 = h @ e0 @ e1" and m1: "merged h m h1 nc c" by auto
  from Cons.IH [of "e0 @ e1" h2' cs2] Cons.prems(1) mr h1
  obtain e2 where h2': "h2' = h @ (e0 @ e1) @ e2" and m2: "list_all2 (merged h m h2') ncs cs2"
    by auto
  from m1 have "merged h m h2' nc c" unfolding h2' h1 using merged_ext [of h m "h @ e0 @ e1" nc c e2] by simp
  with res h2' m2 show ?case by (intro exI [of _ "e1 @ e2"]) simp
qed

lemma findNodeByPath_walk: "findNodeByPath h r path = walkPath h r path"
  by (simp add: findNodeByPath_def)

lemma mergeChildren_ext: "mergeChildren h m ncs = (h2, cs) \<Longrightarrow> \<exists>e. h2 = h @ e"
proof (induction ncs arbitrary: h h2 cs)
  case Nil
  then show ?case by auto
next
  case (Cons nc ncs)
  obtain h1 c where mc: "mergeChild h m nc = (h1, c)" by (cases "mergeChild h m nc")
  obtain h2' cs2 where mr: "mergeChildren h1 m ncs = (h2', cs2)" by (cases "mergeChildren h1 m ncs")
  from mc have "\<exists>e. h1 = h @ e" by (auto simp: mergeChild_def split: option.splits)
  moreover from Cons.IH [OF mr] have "\<exists>e. h2' = h1 @ e" .
  moreover from Cons.prems mc mr have "h2 = h2'" by simp
  ultimately show ?case by auto
qed

lemma children_corr:
  assumes "treeAt lo h a t" "treeAt lo' h' a' t"
  shows "length (childrenOf h a) = length (childrenOf h' a') \<and>
    (\<forall>j<length (childrenOf h a).
        childrenOf h' a' ! j < length h' \<and>
        d_id (h ! (childrenOf h a ! j)) = d_id (h' ! (childrenOf h' a' ! j)) \<and>
        d_position (h ! (childrenOf h a ! j)) = d_position (h' ! (childrenOf h' a' ! j)))"
proof (cases "t_children t")
  case None
  with treeAt_children [OF assms(1)] treeAt_children [OF assms(2)] show ?thesis
    by (cases "d_children (h ! a)"; cases "d_children (h' ! a')") (auto simp: childrenOf_def)
next
  case (Some ts)
  with treeAt_children [OF assms(1)] treeAt_children [OF assms(2)]
  obtain as as' where as: "d_children (h ! a) = Some as" "list_all2 (treeAt lo h) as ts"
    and as': "d_children (h' ! a') = Some as'" "list_all2 (treeAt lo' h') as' ts"
    by (cases "d_children (h ! a)"; cases "d_children (h' ! a')") auto
  have len: "length as = length ts" "length as' = length ts"
    using as as' by (auto dest: list_all2_lengthD)
  have "\<And>j. j < length ts \<Longrightarrow> treeAt lo h (as ! j) (ts ! j) \<and> treeAt lo' h' (as' ! j) (ts ! j)"
    using as as' by (auto dest: list_all2_nthD2)
  then have "\<And>j. j < length ts \<Longrightarrow> as' ! j < length h' \<and>
      d_id (h ! (as ! j)) = d_id (h' ! (as' ! j)) \<and>
      d_position (h ! (as ! j)) = d_position (h' ! (as' ! j))"
    using treeAt_fields treeAt_bounds by metis
  with len as as' show ?thesis by (simp add: childrenOf_def)
qed

lemma existingChildrenMap_childrenOf:
  "existingChildrenMap h (d_children (h ! a)) =
     foldl (\<lambda>m c. m(d_id (h ! c) \<mapsto> c)) Map.empty (childrenOf h a)"
  by (simp add: existingChildrenMap_def childrenOf_def split: option.splits)

text \<open>The whole run of \<open>updateNodeByPath\<close> on a resolvable path, step by step.\<close>

lemma updateNodeByPath_resolved:
  assumes tr: "treeAt 0 h rootNode t" and fuel: "height t < n"
    and w: "walkPath h rootNode path = Some target"
    and ncs: "\<forall>c\<in>set newChildren. c < length h"
  shows "\<exists>h1 h2 cur cs' t'.
     updateNodeByPath n h rootNode path newChildren =
       Some (h2[cur := (h2 ! cur)\<lparr>d_children := Some cs'\<rparr>], length h) \<and>
     take (length h) h1 = h \<and> take (length h1) h2 = h1 \<and> length h < length h1 \<and>
     length h \<le> cur \<and> cur < length h1 \<and>
     treeAt 0 h target t' \<and> treeAt (length h) h1 cur t' \<and>
     walkPath (h2[cur := (h2 ! cur)\<lparr>d_children := Some cs'\<rparr>]) (length h) path = Some cur \<and>
     list_all2 (merged h1 (existingChildrenMap h1 (d_children (h1 ! cur))) h2) newChildren cs'"
proof -
  from cloneDomainTree_ok [OF tr fuel] obtain ext where
    cl: "cloneDomainTree n h rootNode = Some (h @ ext, length h)"
    and tr1: "treeAt (length h) (h @ ext) (length h) t" by auto
  let ?h1 = "h @ ext"
  from walkPath_corr [OF tr tr1, of path] w obtain cur t' where
    w1: "walkPath ?h1 (length h) path = Some cur" and t': "treeAt 0 h target t'"
    "treeAt (length h) ?h1 cur t'"
    by (cases "walkPath ?h1 (length h) path") auto
  have cur: "length h \<le> cur" "cur < length ?h1" using treeAt_bounds [OF t'(2)] by auto
  let ?m = "existingChildrenMap ?h1 (d_children (?h1 ! cur))"
  have m: "\<forall>k e. ?m k = Some e \<longrightarrow> e < length ?h1"
  proof (intro allI impI)
    fix k e assume "?m k = Some e"
    then have "e \<in> set (childrenOf ?h1 cur)"
      unfolding existingChildrenMap_childrenOf by (auto dest: foldl_upd_range)
    then obtain j where "j < length (childrenOf ?h1 cur)" "e = childrenOf ?h1 cur ! j"
      by (auto simp: in_set_conv_nth)
    with children_corr [OF t'(2) t'(2)] show "e < length ?h1" by simp
  qed
  obtain h2 cs' where mg: "mergeChildren ?h1 ?m newChildren = (h2, cs')"
    by (cases "mergeChildren ?h1 ?m newChildren")
  from ncs have "\<forall>c\<in>set newChildren. c < length ?h1" by auto
  from mergeChildren_ok [of ?m ?h1 newChildren "[]" h2 cs', OF m this] mg
  obtain e2 where h2: "h2 = ?h1 @ e2" and mrg: "list_all2 (merged ?h1 ?m h2) newChildren cs'"
    by auto
  let ?hf = "h2[cur := (h2 ! cur)\<lparr>d_children := Some cs'\<rparr>]"
  have "walkPath ?hf (length h) path = Some cur"
  proof (rule walkPath_update [OF _ _ _ tr1 w1])
    show "length ?h1 \<le> length ?hf" by (simp add: h2)
    show "\<And>b. b < length ?h1 \<Longrightarrow> b \<noteq> cur \<Longrightarrow> ?hf ! b = ?h1 ! b"
      by (simp add: h2 nth_append)
    have "h2 ! cur = ?h1 ! cur" "cur < length h2"
      using cur nth_append_left [of cur ?h1 e2] unfolding h2 by simp_all
    then show "d_name (?hf ! cur) = d_name (?h1 ! cur)"
      by simp
  qed
  moreover have "updateNodeByPath n h rootNode path newChildren = Some (?hf, length h)"
    by (simp add: updateNodeByPath_def cl w1 mg)
  moreover have "length h < length ?h1" using cur by (cases ext) auto
  ultimately show ?thesis
    using cur t' mrg h2
    by (intro exI [of _ ?h1] exI [of _ h2] exI [of _ cur] exI [of _ cs'] exI [of _ t']) simp
qed

section \<open>Claims about the tree store\<close>

text \<open>
  Claim C1, as the code has it. For a store that holds a finite tree at \<open>rootNode\<close> and a
  sufficient depth budget, \<open>updateNodeByPath\<close> returns; every record that existed before
  the call is the same after it (the store after the call begins with the store before
  it), so the input root still holds the same tree; and the returned root is a record that
  did not exist before. This holds for every path and every list of new children.
\<close>

theorem updateNodeByPath_frame:
  assumes "treeAt 0 h rootNode t" and "height t < n"
  shows "\<exists>h' newRoot. updateNodeByPath n h rootNode path newChildren = Some (h', newRoot) \<and>
           take (length h) h' = h \<and> treeAt 0 h' rootNode t \<and>
           length h \<le> newRoot \<and> newRoot < length h'"
proof -
  from cloneDomainTree_ok [OF assms] obtain ext where
    cl: "cloneDomainTree n h rootNode = Some (h @ ext, length h)"
    and tr1: "treeAt (length h) (h @ ext) (length h) t" by auto
  have frame: "\<And>h'. take (length h) h' = h \<Longrightarrow> treeAt 0 h' rootNode t"
  proof -
    fix h' assume t: "take (length h) h' = h"
    from arg_cong [OF t, of length] have "length h \<le> length h'" by simp
    moreover have "\<And>b. b < length h \<Longrightarrow> h' ! b = h ! b" using t by (metis nth_take)
    ultimately show "treeAt 0 h' rootNode t"
      using treeAt_transfer [OF assms(1), of 0 h'] by simp
  qed
  have root: "length h < length (h @ ext)" using treeAt_bounds [OF tr1] by simp
  show ?thesis
  proof (cases "walkPath (h @ ext) (length h) path")
    case None
    with cl have "updateNodeByPath n h rootNode path newChildren = Some (h @ ext, length h)"
      by (simp add: updateNodeByPath_def)
    with frame [of "h @ ext"] root show ?thesis by simp
  next
    case (Some cur)
    from walkPath_tree [OF tr1 Some] have cur: "length h \<le> cur"
      using treeAt_bounds by blast
    let ?m = "existingChildrenMap (h @ ext) (d_children ((h @ ext) ! cur))"
    obtain h2 cs where mg: "mergeChildren (h @ ext) ?m newChildren = (h2, cs)"
      by (cases "mergeChildren (h @ ext) ?m newChildren")
    from mergeChildren_ext [OF mg] obtain e where h2: "h2 = (h @ ext) @ e" by auto
    let ?hf = "h2[cur := (h2 ! cur)\<lparr>d_children := Some cs\<rparr>]"
    have "updateNodeByPath n h rootNode path newChildren = Some (?hf, length h)"
      by (simp add: updateNodeByPath_def cl Some mg)
    moreover have tk: "take (length h) ?hf = h" using cur by (simp add: h2)
    moreover have "length h < length ?hf" using root by (simp add: h2)
    ultimately show ?thesis using frame [OF tk] by simp
  qed
qed

text \<open>
  The load-more call on a root with the single child \<open>Art\<close>: the new children are the
  existing child (address 1) followed by a new node \<open>Music\<close> (address 2).
\<close>

lemma shared_tree_at: "treeAt 0 shared_heap 0 shared_tree"
proof -
  have "treeAt 0 shared_heap 1 (DTree ''Art'' ''Art'' None (Some ''ai'') None)"
    using treeAt.unresolved [of 0 1 shared_heap] by (simp add: shared_heap_def)
  then show ?thesis
    using treeAt.materialized [of 0 0 shared_heap "[1]"
        "[DTree ''Art'' ''Art'' None (Some ''ai'') None]"]
    by (simp add: shared_heap_def shared_tree_def)
qed

theorem updateNodeByPath_frame_witness:
  "treeAt 0 shared_heap 0 shared_tree \<and> height shared_tree < 2 \<and>
   updateNodeByPath 2 shared_heap 0 [] [1, 2] = Some (shared_result, 3) \<and>
   take (length shared_heap) shared_result = shared_heap \<and>
   treeAt 0 shared_result 0 shared_tree"
proof -
  have h: "height shared_tree < 2" by (simp add: shared_tree_def)
  have r: "updateNodeByPath 2 shared_heap 0 [] [1, 2] = Some (shared_result, 3)"
    by (simp add: updateNodeByPath_def shared_heap_def shared_result_def numeral_2_eq_2
        Let_def existingChildrenMap_def mergeChild_def)
  from updateNodeByPath_frame [OF shared_tree_at h, of "[]" "[1, 2]"] r shared_tree_at h
  show ?thesis by simp
qed

text \<open>
  Claim C1 as stated also says that the returned tree shares no record with the input.
  It does: \<open>newChildren.map\<close> returns the object \<open>newChild\<close> itself unless a position is
  carried over, and load-more passes the existing children as new children. When \<open>art\<close>
  and \<open>Music\<close> are loaded for a root whose only child is \<open>Art\<close>, the call is the one above,
  and the record at address 1 is a child of the input root (address 0) and of the
  returned root (address 3).
\<close>

theorem updateNodeByPath_shares_records:
  "handleLoadMore lowerLatin 2 art_heap 0 [] [''art'', ''Music''] = Some (shared_result, 3) \<and>
   updateNodeByPath 2 shared_heap 0 [] [1, 2] = Some (shared_result, 3) \<and>
   reaches shared_heap 0 1 \<and> reaches shared_result 3 1"
proof -
  have a: "appendNewDomains lowerLatin art_heap (childrenOf art_heap 0) [''art'', ''Music''] =
      (shared_heap, [1, 2])"
    by (simp add: appendNewDomains_def uniqueNew_def existingSet_def childrenOf_def art_heap_def
        shared_heap_def newDomain_def lowerLatin_def lowerLatinChar_def Let_def upt_rec)
  have r: "updateNodeByPath 2 shared_heap 0 [] [1, 2] = Some (shared_result, 3)"
    by (simp add: updateNodeByPath_def shared_heap_def shared_result_def numeral_2_eq_2
        Let_def existingChildrenMap_def mergeChild_def)
  then have r': "updateNodeByPath 2 shared_heap 0 [] [Suc 0, 2] = Some (shared_result, 3)"
    by simp
  have l: "handleLoadMore lowerLatin 2 art_heap 0 [] [''art'', ''Music''] =
      Some (shared_result, 3)"
    by (simp add: handleLoadMore_def findNodeByPath_def a r')
  have "reaches shared_heap 0 1"
    by (rule reaches.child [of _ _ "[1]" 1]) (simp_all add: shared_heap_def reaches.self)
  moreover have "reaches shared_result 3 1"
    by (rule reaches.child [of _ _ "[1, 2]" 1])
       (simp_all add: shared_heap_def shared_result_def reaches.self)
  ultimately show ?thesis using r l by simp
qed

text \<open>
  Claim C7. If the path does not resolve in the input tree (\<open>findNodeByPath\<close> returns
  \<open>null\<close>), then \<open>updateNodeByPath\<close> returns exactly what \<open>cloneDomainTree\<close> returns: a
  root that holds the same tree as the input, made of new records only; the new children
  are not used.
\<close>

theorem updateNodeByPath_unresolved:
  assumes "treeAt 0 h rootNode t" and "height t < n"
    and "findNodeByPath h rootNode path = None"
  shows "\<exists>h' newRoot. updateNodeByPath n h rootNode path newChildren = Some (h', newRoot) \<and>
           cloneDomainTree n h rootNode = Some (h', newRoot) \<and>
           treeAt (length h) h' newRoot t"
proof -
  from cloneDomainTree_ok [OF assms(1,2)] obtain ext where
    cl: "cloneDomainTree n h rootNode = Some (h @ ext, length h)"
    and tr1: "treeAt (length h) (h @ ext) (length h) t" by auto
  from assms(3) have "walkPath h rootNode path = None" by (simp add: findNodeByPath_walk)
  with walkPath_corr [OF assms(1) tr1, of path]
  have "walkPath (h @ ext) (length h) path = None" by auto
  with cl tr1 show ?thesis by (simp add: updateNodeByPath_def)
qed

theorem updateNodeByPath_unresolved_witness:
  "treeAt 0 shared_heap 0 shared_tree \<and> height shared_tree < 2 \<and>
   findNodeByPath shared_heap 0 [''Music''] = None \<and>
   updateNodeByPath 2 shared_heap 0 [''Music''] [2] = cloneDomainTree 2 shared_heap 0 \<and>
   (\<exists>h'. updateNodeByPath 2 shared_heap 0 [''Music''] [2] = Some (h', 3) \<and>
         treeAt 3 h' 3 shared_tree)"
proof -
  have h: "height shared_tree < 2" by (simp add: shared_tree_def)
  have f: "findNodeByPath shared_heap 0 [''Music''] = None"
    by (simp add: findNodeByPath_def shared_heap_def)
  have c: "cloneDomainTree 2 shared_heap 0 = Some (shared_heap @
     [\<lparr>d_id = ''root'', d_name = ''SparkSphere'', d_children = Some [4], d_source = None,
       d_position = None\<rparr>,
      \<lparr>d_id = ''Art'', d_name = ''Art'', d_children = None, d_source = Some ''ai'',
       d_position = None\<rparr>], 3)"
    by (simp add: shared_heap_def numeral_2_eq_2 Let_def)
  have len: "length shared_heap = 3" by (simp add: shared_heap_def)
  from updateNodeByPath_unresolved [OF shared_tree_at h f, of "[2]"] obtain h' r where
    u: "updateNodeByPath 2 shared_heap 0 [''Music''] [2] = Some (h', r)"
    and e: "cloneDomainTree 2 shared_heap 0 = Some (h', r)"
    and t: "treeAt (length shared_heap) h' r shared_tree" by auto
  from e c have "r = 3" by simp
  with u e t len shared_tree_at h f show ?thesis by simp
qed

text \<open>
  Claim C4. On a path that resolves to \<open>target\<close>, the node at the path in the returned tree
  has one child per new child, in the same order. A new child whose id no existing child
  of \<open>target\<close> has is the new child's own record, with its own position. A new child whose
  id an existing child has (the last one with that id, which is the one the \<open>Map\<close> keeps)
  is the new child's record with the position replaced by that existing child's cached
  position; when that existing child has no cached position there is nothing to carry
  over and the new child's record is kept as it is.
\<close>

theorem updateNodeByPath_positions:
  assumes tr: "treeAt 0 h rootNode t" and fuel: "height t < n"
    and found: "findNodeByPath h rootNode path = Some target"
    and ncs: "\<forall>c\<in>set newChildren. c < length h"
  shows "\<exists>h' newRoot target' cs'.
     updateNodeByPath n h rootNode path newChildren = Some (h', newRoot) \<and>
     findNodeByPath h' newRoot path = Some target' \<and>
     d_children (h' ! target') = Some cs' \<and> length cs' = length newChildren \<and>
     (\<forall>i<length newChildren.
        ((\<forall>e\<in>set (childrenOf h target). d_id (h ! e) \<noteq> d_id (h ! (newChildren ! i))) \<longrightarrow>
           h' ! (cs' ! i) = h ! (newChildren ! i)) \<and>
        (\<forall>j<length (childrenOf h target).
           d_id (h ! (childrenOf h target ! j)) = d_id (h ! (newChildren ! i)) \<and>
           (\<forall>k<length (childrenOf h target). j < k \<longrightarrow>
              d_id (h ! (childrenOf h target ! k)) \<noteq> d_id (h ! (newChildren ! i))) \<longrightarrow>
           h' ! (cs' ! i) =
             (case d_position (h ! (childrenOf h target ! j)) of
                None \<Rightarrow> h ! (newChildren ! i)
              | Some p \<Rightarrow> (h ! (newChildren ! i))\<lparr>d_position := Some p\<rparr>)))"
proof -
  from found have w: "walkPath h rootNode path = Some target" by (simp add: findNodeByPath_walk)
  from updateNodeByPath_resolved [OF tr fuel w ncs] obtain h1 h2 cur cs' t' where
    upd: "updateNodeByPath n h rootNode path newChildren =
       Some (h2[cur := (h2 ! cur)\<lparr>d_children := Some cs'\<rparr>], length h)"
    and h1: "take (length h) h1 = h" and h2: "take (length h1) h2 = h1"
    and cur: "length h \<le> cur" "cur < length h1"
    and t': "treeAt 0 h target t'" "treeAt (length h) h1 cur t'"
    and wf: "walkPath (h2[cur := (h2 ! cur)\<lparr>d_children := Some cs'\<rparr>]) (length h) path = Some cur"
    and mrg: "list_all2 (merged h1 (existingChildrenMap h1 (d_children (h1 ! cur))) h2) newChildren cs'"
    by blast
  let ?hf = "h2[cur := (h2 ! cur)\<lparr>d_children := Some cs'\<rparr>]"
  let ?m = "existingChildrenMap h1 (d_children (h1 ! cur))"
  let ?E0 = "childrenOf h target" and ?E1 = "childrenOf h1 cur"
  have len1: "length h1 \<le> length h2" using arg_cong [OF h2, of length] by simp
  have old1: "\<And>b. b < length h \<Longrightarrow> h1 ! b = h ! b" using h1 by (metis nth_take)
  have old2: "\<And>b. b < length h1 \<Longrightarrow> h2 ! b = h1 ! b" using h2 by (metis nth_take)
  have len0: "length h \<le> length h1" using arg_cong [OF h1, of length] by simp
  have old: "\<And>b. b < length h \<Longrightarrow> ?hf ! b = h ! b"
  proof -
    fix b assume b: "b < length h"
    with cur have "b \<noteq> cur" by simp
    then have "?hf ! b = h2 ! b" by simp
    also have "\<dots> = h1 ! b" using b len0 by (intro old2) simp
    also have "\<dots> = h ! b" using b by (rule old1)
    finally show "?hf ! b = h ! b" .
  qed
  from children_corr [OF t'] have lenE: "length ?E0 = length ?E1"
    and E: "\<forall>j<length ?E0. d_id (h ! (?E0 ! j)) = d_id (h1 ! (?E1 ! j)) \<and>
        d_position (h ! (?E0 ! j)) = d_position (h1 ! (?E1 ! j))" by simp_all
  have m: "?m = foldl (\<lambda>m c. m(d_id (h1 ! c) \<mapsto> c)) Map.empty ?E1"
    by (rule existingChildrenMap_childrenOf)
  have ch: "d_children (?hf ! cur) = Some cs'" using cur len1 by simp
  have len: "length cs' = length newChildren" using mrg by (auto dest: list_all2_lengthD)
  have main: "\<forall>i<length newChildren.
        ((\<forall>e\<in>set ?E0. d_id (h ! e) \<noteq> d_id (h ! (newChildren ! i))) \<longrightarrow>
           ?hf ! (cs' ! i) = h ! (newChildren ! i)) \<and>
        (\<forall>j<length ?E0.
           d_id (h ! (?E0 ! j)) = d_id (h ! (newChildren ! i)) \<and>
           (\<forall>k<length ?E0. j < k \<longrightarrow> d_id (h ! (?E0 ! k)) \<noteq> d_id (h ! (newChildren ! i))) \<longrightarrow>
           ?hf ! (cs' ! i) =
             (case d_position (h ! (?E0 ! j)) of
                None \<Rightarrow> h ! (newChildren ! i)
              | Some p \<Rightarrow> (h ! (newChildren ! i))\<lparr>d_position := Some p\<rparr>))"
  proof (intro allI impI)
    fix i assume i: "i < length newChildren"
    let ?nc = "newChildren ! i" and ?c = "cs' ! i"
    let ?k = "d_id (h ! ?nc)"
    from i ncs have nc: "?nc < length h" by simp
    then have nc1: "h1 ! ?nc = h ! ?nc" by (rule old1)
    from mrg i have mg: "merged h1 ?m h2 ?nc ?c" by (rule list_all2_nthD)
    have same: "?c = ?nc \<Longrightarrow> ?hf ! ?c = h ! ?nc" using old [OF nc] by simp
    have A: "(\<forall>e\<in>set ?E0. d_id (h ! e) \<noteq> ?k) \<Longrightarrow> ?hf ! ?c = h ! ?nc"
    proof -
      assume no: "\<forall>e\<in>set ?E0. d_id (h ! e) \<noteq> ?k"
      have "\<forall>c\<in>set ?E1. d_id (h1 ! c) \<noteq> ?k"
      proof
        fix c assume "c \<in> set ?E1"
        then obtain j where j: "j < length ?E1" "c = ?E1 ! j" by (auto simp: in_set_conv_nth)
        with lenE E have "d_id (h1 ! c) = d_id (h ! (?E0 ! j))" "?E0 ! j \<in> set ?E0" by simp_all
        with no show "d_id (h1 ! c) \<noteq> ?k" by simp
      qed
      from foldl_upd_none [OF this, of Map.empty] have "?m ?k = None" by (simp add: m)
      with mg nc1 have "?c = ?nc" by (simp add: merged_def)
      then show ?thesis by (rule same)
    qed
    have B: "\<And>j. j < length ?E0 \<Longrightarrow> d_id (h ! (?E0 ! j)) = ?k \<Longrightarrow>
           (\<forall>k<length ?E0. j < k \<longrightarrow> d_id (h ! (?E0 ! k)) \<noteq> ?k) \<Longrightarrow>
           ?hf ! ?c = (case d_position (h ! (?E0 ! j)) of None \<Rightarrow> h ! ?nc
              | Some p \<Rightarrow> (h ! ?nc)\<lparr>d_position := Some p\<rparr>)"
    proof -
      fix j assume j: "j < length ?E0" "d_id (h ! (?E0 ! j)) = ?k"
        "\<forall>k<length ?E0. j < k \<longrightarrow> d_id (h ! (?E0 ! k)) \<noteq> ?k"
      have "j < length ?E1" "d_id (h1 ! (?E1 ! j)) = ?k"
        "\<forall>i<length ?E1. j < i \<longrightarrow> d_id (h1 ! (?E1 ! i)) \<noteq> ?k"
        using j lenE E by simp_all
      from foldl_upd_last [of j ?E1 "\<lambda>c. d_id (h1 ! c)" ?k Map.empty, OF this]
      have mk: "?m ?k = Some (?E1 ! j)" by (simp add: m)
      have pos: "d_position (h1 ! (?E1 ! j)) = d_position (h ! (?E0 ! j))"
        using E j(1) by simp
      show "?hf ! ?c = (case d_position (h ! (?E0 ! j)) of None \<Rightarrow> h ! ?nc
              | Some p \<Rightarrow> (h ! ?nc)\<lparr>d_position := Some p\<rparr>)"
      proof (cases "d_position (h ! (?E0 ! j))")
        case None
        with mg mk pos nc1 have "?c = ?nc" by (simp add: merged_def)
        with None same show ?thesis by simp
      next
        case (Some p)
        with mg mk pos nc1 have c: "length h1 \<le> ?c" "?c < length h2"
          "h2 ! ?c = (h ! ?nc)\<lparr>d_position := Some p\<rparr>" by (simp_all add: merged_def)
        with cur have "?c \<noteq> cur" by simp
        then have "?hf ! ?c = h2 ! ?c" by simp
        with c Some show ?thesis by simp
      qed
    qed
    show "((\<forall>e\<in>set ?E0. d_id (h ! e) \<noteq> ?k) \<longrightarrow> ?hf ! ?c = h ! ?nc) \<and>
        (\<forall>j<length ?E0.
           d_id (h ! (?E0 ! j)) = ?k \<and>
           (\<forall>k<length ?E0. j < k \<longrightarrow> d_id (h ! (?E0 ! k)) \<noteq> ?k) \<longrightarrow>
           ?hf ! ?c =
             (case d_position (h ! (?E0 ! j)) of
                None \<Rightarrow> h ! ?nc
              | Some p \<Rightarrow> (h ! ?nc)\<lparr>d_position := Some p\<rparr>))"
    proof (intro conjI allI impI)
      assume "\<forall>e\<in>set ?E0. d_id (h ! e) \<noteq> ?k"
      then show "?hf ! ?c = h ! ?nc" by (rule A)
    next
      fix j assume "j < length ?E0" "d_id (h ! (?E0 ! j)) = ?k \<and>
           (\<forall>k<length ?E0. j < k \<longrightarrow> d_id (h ! (?E0 ! k)) \<noteq> ?k)"
      then show "?hf ! ?c = (case d_position (h ! (?E0 ! j)) of None \<Rightarrow> h ! ?nc
              | Some p \<Rightarrow> (h ! ?nc)\<lparr>d_position := Some p\<rparr>)"
        using B [of j] by simp
    qed
  qed
  have "findNodeByPath ?hf (length h) path = Some cur" using wf by (simp add: findNodeByPath_walk)
  with upd ch len main show ?thesis
    by (intro exI [of _ ?hf] exI [of _ "length h"] exI [of _ cur] exI [of _ cs'] conjI)
qed

text \<open>
  The example of the claim: the children \<open>[A (10, 10), B]\<close> are replaced by \<open>[A, B, C]\<close>;
  \<open>A\<close> comes out with the position \<open>(10, 10)\<close>, \<open>B\<close> and \<open>C\<close> as they were passed in.
\<close>

lemma pos_tree_at: "treeAt 0 pos_heap 0 pos_tree"
proof -
  have "treeAt 0 pos_heap 1 (DTree ''A'' ''A'' None (Some ''ai'') (Some (10, 10)))"
    using treeAt.unresolved [of 0 1 pos_heap] by (simp add: pos_heap_def)
  moreover have "treeAt 0 pos_heap 2 (DTree ''B'' ''B'' None (Some ''ai'') None)"
    using treeAt.unresolved [of 0 2 pos_heap] by (simp add: pos_heap_def)
  ultimately show ?thesis
    using treeAt.materialized [of 0 0 pos_heap "[1, 2]"
        "[DTree ''A'' ''A'' None (Some ''ai'') (Some (10, 10)),
          DTree ''B'' ''B'' None (Some ''ai'') None]"]
    by (simp add: pos_heap_def pos_tree_def)
qed

theorem updateNodeByPath_positions_witness:
  "treeAt 0 pos_heap 0 pos_tree \<and> height pos_tree < 2 \<and>
   findNodeByPath pos_heap 0 [] = Some 0 \<and>
   (\<exists>h' newRoot target' cs'.
      updateNodeByPath 2 pos_heap 0 [] [3, 4, 5] = Some (h', newRoot) \<and>
      findNodeByPath h' newRoot [] = Some target' \<and>
      d_children (h' ! target') = Some cs' \<and> length cs' = 3 \<and>
      h' ! (cs' ! 0) = (pos_heap ! 3)\<lparr>d_position := Some (10, 10)\<rparr> \<and>
      h' ! (cs' ! 1) = pos_heap ! 4 \<and> h' ! (cs' ! 2) = pos_heap ! 5)"
proof -
  have h: "height pos_tree < 2" by (simp add: pos_tree_def)
  have f: "findNodeByPath pos_heap 0 [] = Some 0" by (simp add: findNodeByPath_def)
  have v: "\<forall>c\<in>set [3, 4, 5]. c < length pos_heap" by (simp add: pos_heap_def)
  have E: "childrenOf pos_heap 0 = [1, 2]" by (simp add: childrenOf_def pos_heap_def)
  from updateNodeByPath_positions [OF pos_tree_at h f v] obtain h' newRoot target' cs' where
    u: "updateNodeByPath 2 pos_heap 0 [] [3, 4, 5] = Some (h', newRoot)"
      "findNodeByPath h' newRoot [] = Some target'"
      "d_children (h' ! target') = Some cs'" "length cs' = length [3::nat, 4, 5]"
    and all: "\<forall>i<length [3::nat, 4, 5].
        ((\<forall>e\<in>set (childrenOf pos_heap 0). d_id (pos_heap ! e) \<noteq> d_id (pos_heap ! ([3, 4, 5] ! i))) \<longrightarrow>
           h' ! (cs' ! i) = pos_heap ! ([3, 4, 5] ! i)) \<and>
        (\<forall>j<length (childrenOf pos_heap 0).
           d_id (pos_heap ! (childrenOf pos_heap 0 ! j)) = d_id (pos_heap ! ([3, 4, 5] ! i)) \<and>
           (\<forall>k<length (childrenOf pos_heap 0). j < k \<longrightarrow>
              d_id (pos_heap ! (childrenOf pos_heap 0 ! k)) \<noteq> d_id (pos_heap ! ([3, 4, 5] ! i))) \<longrightarrow>
           h' ! (cs' ! i) =
             (case d_position (pos_heap ! (childrenOf pos_heap 0 ! j)) of
                None \<Rightarrow> pos_heap ! ([3, 4, 5] ! i)
              | Some p \<Rightarrow> (pos_heap ! ([3, 4, 5] ! i))\<lparr>d_position := Some p\<rparr>))"
    by blast
  from all [rule_format, of 0, THEN conjunct2, rule_format, of 0]
  have a: "h' ! (cs' ! 0) = (pos_heap ! 3)\<lparr>d_position := Some (10, 10)\<rparr>"
    by (simp add: E) (simp add: pos_heap_def)
  from all [rule_format, of 1, THEN conjunct2, rule_format, of 1]
  have b: "h' ! (cs' ! 1) = pos_heap ! 4"
    by (simp add: E) (simp add: pos_heap_def)
  from all [rule_format, of 2, THEN conjunct1]
  have c: "h' ! (cs' ! 2) = pos_heap ! 5"
    by (simp add: E) (simp add: pos_heap_def)
  from u a b c pos_tree_at h f show ?thesis by auto
qed

text \<open>
  Claim C8. Whatever function the built-in lower-casing is: the list that load-more passes
  on begins with the existing children themselves, in their order; after them come newly
  allocated records, one for each candidate name whose lower-casing differs from the
  lower-casing of every existing child's name, in the order of the candidates. Each of
  them has the candidate as id and as name, unresolved children, the source \<open>ai\<close> and no
  position. The records that existed before are not touched.
\<close>

theorem appendNewDomains_unique:
  "(case appendNewDomains toLowerCase h existing newNames of
      (h1, cs) \<Rightarrow>
        take (length h) h1 = h \<and> take (length existing) cs = existing \<and>
        map ((!) h1) (drop (length existing) cs) =
          map (\<lambda>name. \<lparr>d_id = name, d_name = name, d_children = None,
                        d_source = Some ''ai'', d_position = None\<rparr>)
            (filter (\<lambda>n. \<forall>e\<in>set existing. toLowerCase (d_name (h ! e)) \<noteq> toLowerCase n)
               newNames) \<and>
        (\<forall>c\<in>set (drop (length existing) cs). length h \<le> c \<and> c < length h1 \<and>
            d_children (h1 ! c) = None))"
proof -
  let ?names = "uniqueNew toLowerCase h existing newNames"
  have f: "?names =
      filter (\<lambda>n. \<forall>e\<in>set existing. toLowerCase (d_name (h ! e)) \<noteq> toLowerCase n) newNames"
    unfolding uniqueNew_def existingSet_def by (rule filter_cong) (auto simp: image_iff)
  have m: "map ((!) (h @ map newDomain ?names)) [length h ..< length h + length ?names] =
      map (\<lambda>name. \<lparr>d_id = name, d_name = name, d_children = None,
                    d_source = Some ''ai'', d_position = None\<rparr>) ?names"
    by (rule nth_equalityI) (simp_all add: nth_append newDomain_def)
  have n: "\<forall>c\<in>set [length h ..< length h + length ?names].
      d_children ((h @ map newDomain ?names) ! c) = None"
    by (auto simp: nth_append newDomain_def)
  from m n show ?thesis
    by (simp add: appendNewDomains_def Let_def f [symmetric])
qed

text \<open>
  The example of the claim: \<open>art\<close> and \<open>Music\<close> offered to a node whose only child is \<open>Art\<close>.
  Only \<open>Music\<close> is appended.
\<close>

theorem appendNewDomains_unique_witness:
  "take 1 (snd (appendNewDomains lowerLatin art_heap [1] [''art'', ''Music''])) = [1] \<and>
   map ((!) (fst (appendNewDomains lowerLatin art_heap [1] [''art'', ''Music''])))
     (drop 1 (snd (appendNewDomains lowerLatin art_heap [1] [''art'', ''Music'']))) =
   [\<lparr>d_id = ''Music'', d_name = ''Music'', d_children = None, d_source = Some ''ai'',
     d_position = None\<rparr>]"
proof -
  have "filter (\<lambda>n. \<forall>e\<in>set [1]. lowerLatin (d_name (art_heap ! e)) \<noteq> lowerLatin n)
      [''art'', ''Music''] = [''Music'']"
    by (simp add: lowerLatin_def lowerLatinChar_def art_heap_def)
  with appendNewDomains_unique [where toLowerCase = lowerLatin and h = art_heap
      and existing = "[1]" and newNames = "[''art'', ''Music'']"]
  show ?thesis
    by (simp add: case_prod_beta)
qed

section \<open>Claims about the gesture controller\<close>

lemma mapSet_length: "mapHas m k \<Longrightarrow> length (mapSet m k v) = length m"
  by (induction m) (force simp: mapHas_def)+

lemma getDistance_horizontal: "getDistance (a, y) (b, y) = \<bar>b - a\<bar>"
  by (simp add: getDistance_def)

lemma zoom_onPointerDown: "zoomLevel (onPointerDown s e now) = zoomLevel s"
  by (simp add: onPointerDown_def Let_def)

lemma zoom_onPointerUp: "zoomLevel (onPointerUp s e) = zoomLevel s"
  by (simp add: onPointerUp_def Let_def)

lemma zoom_panBy: "zoomLevel (panBy s e) = zoomLevel s"
  by (simp add: panBy_def Let_def)

lemma zoom_onPointerMove:
  "zoomLevel (onPointerMove s e) = zoomLevel s \<or>
   (\<exists>a. zoomLevel (onPointerMove s e) = min (max a 0.6) 2.5)"
  by (auto simp: onPointerMove_def Let_def zoom_panBy)

lemma zoom_ok_step: "zoom_ok s \<Longrightarrow> zoom_ok (step s ev)"
proof (cases ev)
  case (PointerMove e)
  assume "zoom_ok s"
  with zoom_onPointerMove [of s e] PointerMove show ?thesis
    by (auto simp: zoom_ok_def)
qed (auto simp: zoom_ok_def zoom_onPointerDown zoom_onPointerUp handleZoomIn_def
        handleZoomOut_def togglePinch_def navigationReset_def handleDomainClickRequest_def
        handleSelectDomain_def min_def max_def)

lemma zoom_ok_run: "zoom_ok s \<Longrightarrow> zoom_ok (run s es)"
  unfolding run_def by (induction es arbitrary: s) (auto intro: zoom_ok_step)

text \<open>
  Claim C10. Starting from a freshly mounted view, after every sequence of events (the
  pointer handlers, the zoom buttons, the pinch toggle, selection requests, the navigation
  reset) the zoom level lies in \<open>[0.6, 2.5]\<close>. The zoom-in button yields
  \<open>min (prev + 0.2) 2.0\<close>, so never more than 2.0; the zoom-out button never yields less
  than 0.6; and a pinch reaches 2.5.
\<close>

theorem zoom_bounds:
  "0.6 \<le> zoomLevel (run (initialGesture p) es) \<and> zoomLevel (run (initialGesture p) es) \<le> 2.5 \<and>
   zoomLevel (handleZoomIn s) = min (zoomLevel s + 0.2) 2.0 \<and>
   zoomLevel (handleZoomIn s) \<le> 2.0 \<and>
   0.6 \<le> zoomLevel (handleZoomOut s) \<and>
   zoomLevel (run (initialGesture p) pinch_to_max) = 2.5"
proof -
  have "zoom_ok (initialGesture p)" by (simp add: zoom_ok_def initialGesture_def)
  then have "zoom_ok (run (initialGesture p) es)" by (rule zoom_ok_run)
  moreover have "zoomLevel (run (initialGesture p) pinch_to_max) = 2.5"
    by (simp add: run_def pinch_to_max_def initialGesture_def togglePinch_def onPointerDown_def
        onPointerMove_def Let_def mapHas_def truthy_def getDistance_horizontal)
  ultimately show ?thesis
    by (simp add: zoom_ok_def handleZoomIn_def handleZoomOut_def)
qed

lemma pan_onPointerMove_two:
  assumes "length (activePointers s) = 2"
  shows "pan (onPointerMove s e) = pan s"
proof (cases "mapHas (activePointers s) (pointerId e)")
  case True
  with assms mapSet_length [OF True, of "(clientX e, clientY e)"] show ?thesis
    by (simp add: onPointerMove_def Let_def)
next
  case False
  then show ?thesis by (simp add: onPointerMove_def)
qed

text \<open>
  How a pinch starts: when one pointer is active, pinch is enabled and another pointer
  goes down, both pointers are active afterwards, and the distance between them and
  the zoom level of that moment are what is recorded. A move of the second pointer then
  sets the zoom level to that zoom level times the ratio of the new distance to the
  recorded one, clamped, and leaves the pan offset alone.
\<close>

lemma onPointerDown_pinch_start:
  assumes "activePointers s = [(p1, q1)]" and "pointerId e \<noteq> p1" and "isPinchEnabled s"
  shows "activePointers (onPointerDown s e now) =
       [(p1, q1), (pointerId e, (clientX e, clientY e))] \<and>
     initialPinchDistance (onPointerDown s e now) = Some (getDistance q1 (clientX e, clientY e)) \<and>
     initialZoomLevel (onPointerDown s e now) = zoomLevel s \<and>
     isPinchEnabled (onPointerDown s e now) \<and>
     zoomLevel (onPointerDown s e now) = zoomLevel s \<and> pan (onPointerDown s e now) = pan s"
  using assms by (simp add: onPointerDown_def Let_def)

lemma pinch_from_start:
  assumes "activePointers s = [(p1, q1)]" and "pointerId e \<noteq> p1" and "isPinchEnabled s"
    and "getDistance q1 (clientX e, clientY e) \<noteq> 0"
    and "pointerId e' = pointerId e"
  shows "zoomLevel (onPointerMove (onPointerDown s e now) e') =
     min (max (zoomLevel s * (getDistance q1 (clientX e', clientY e') /
                              getDistance q1 (clientX e, clientY e))) 0.6) 2.5 \<and>
     pan (onPointerMove (onPointerDown s e now) e') = pan s"
  using assms
  by (simp add: onPointerDown_def onPointerMove_def Let_def mapHas_def truthy_def)

text \<open>
  Claim C5, as the code has it. With exactly two pointers active and pinch enabled, no move
  event changes the pan offset. A move of one of the active pointers sets the zoom level
  to the zoom at pinch start times the ratio of the current distance of the two pointers
  to the recorded initial distance, clamped to \<open>[0.6, 2.5]\<close>, provided that an initial
  distance has been recorded and is not zero. A move of a pointer that is not active, or
  a move while no non-zero initial distance is recorded, leaves the zoom level as it is.
\<close>

theorem pinch_move:
  assumes "length (activePointers s) = 2" and "isPinchEnabled s"
  shows "pan (onPointerMove s e) = pan s \<and>
    (mapHas (activePointers s) (pointerId e) \<and> initialPinchDistance s = Some d0 \<and> d0 \<noteq> 0 \<longrightarrow>
       zoomLevel (onPointerMove s e) =
         min (max (initialZoomLevel s *
                    (getDistance (map snd (activePointers (onPointerMove s e)) ! 0)
                                 (map snd (activePointers (onPointerMove s e)) ! 1) / d0))
                  0.6) 2.5) \<and>
    (\<not> mapHas (activePointers s) (pointerId e) \<or> \<not> truthy (initialPinchDistance s) \<longrightarrow>
       zoomLevel (onPointerMove s e) = zoomLevel s)"
proof (intro conjI impI)
  show "pan (onPointerMove s e) = pan s" using assms(1) by (rule pan_onPointerMove_two)
next
  assume a: "mapHas (activePointers s) (pointerId e) \<and> initialPinchDistance s = Some d0 \<and> d0 \<noteq> 0"
  with assms mapSet_length [of "activePointers s" "pointerId e" "(clientX e, clientY e)"]
  show "zoomLevel (onPointerMove s e) =
         min (max (initialZoomLevel s *
                    (getDistance (map snd (activePointers (onPointerMove s e)) ! 0)
                                 (map snd (activePointers (onPointerMove s e)) ! 1) / d0))
                  0.6) 2.5"
    by (simp add: onPointerMove_def Let_def truthy_def)
next
  assume a: "\<not> mapHas (activePointers s) (pointerId e) \<or> \<not> truthy (initialPinchDistance s)"
  show "zoomLevel (onPointerMove s e) = zoomLevel s"
  proof (cases "mapHas (activePointers s) (pointerId e)")
    case True
    with a assms mapSet_length [OF True, of "(clientX e, clientY e)"] show ?thesis
      by (simp add: onPointerMove_def Let_def)
  next
    case False
    then show ?thesis by (simp add: onPointerMove_def)
  qed
qed

lemma pinch_started_eq:
  "pinch_started = (initialGesture [])\<lparr>isPinchEnabled := True,
      activePointers := [(1, (0, 0)), (2, (10, 0))],
      startDragTime := 0, lastPointerType := ''touch'',
      initialPinchDistance := Some 10, initialZoomLevel := 1\<rparr>"
  by (simp add: pinch_started_def run_def initialGesture_def togglePinch_def onPointerDown_def
        Let_def getDistance_horizontal)

theorem pinch_move_witness:
  "length (activePointers pinch_started) = 2 \<and> isPinchEnabled pinch_started \<and>
   pan (onPointerMove pinch_started
          \<lparr>pointerId = 2, clientX = 20, clientY = 0, pointerType = ''touch''\<rparr>) = (0, 0) \<and>
   zoomLevel (onPointerMove pinch_started
          \<lparr>pointerId = 2, clientX = 20, clientY = 0, pointerType = ''touch''\<rparr>) = 2"
proof -
  let ?e = "\<lparr>pointerId = 2, clientX = 20, clientY = 0, pointerType = ''touch''\<rparr>"
  have l: "length (activePointers pinch_started) = 2" and p: "isPinchEnabled pinch_started"
    by (simp_all add: pinch_started_eq)
  have h: "mapHas (activePointers pinch_started) (pointerId ?e) \<and>
      initialPinchDistance pinch_started = Some 10 \<and> (10::real) \<noteq> 0"
    by (simp add: pinch_started_eq mapHas_def)
  have a: "activePointers (onPointerMove pinch_started ?e) = [(1, (0, 0)), (2, (20, 0))]"
    by (simp add: pinch_started_eq onPointerMove_def mapHas_def Let_def initialGesture_def
        truthy_def)
  from pinch_move [OF l p, of ?e 10] h a l p show ?thesis
    by (simp add: getDistance_horizontal) (simp add: pinch_started_eq initialGesture_def)
qed

text \<open>
  Claim C5 as stated has no such proviso. The initial distance is recorded only by a
  pointer-down that makes the second pointer active while pinch is enabled. When the
  pinch button is tapped after both fingers are down, two pointers are active and pinch
  is enabled, one finger moves from 10 to 20 units away from the other, and the zoom level
  stays 1 where the stated rule gives 2.
\<close>

theorem pinch_move_not_started:
  "length (activePointers late_pinch) = 2 \<and> isPinchEnabled late_pinch \<and>
   mapHas (activePointers late_pinch) (pointerId spread_move) \<and>
   getDistance (map snd (activePointers late_pinch) ! 0)
               (map snd (activePointers late_pinch) ! 1) = 10 \<and>
   getDistance (map snd (activePointers (onPointerMove late_pinch spread_move)) ! 0)
               (map snd (activePointers (onPointerMove late_pinch spread_move)) ! 1) = 20 \<and>
   initialZoomLevel late_pinch = 1 \<and>
   zoomLevel (onPointerMove late_pinch spread_move) = 1 \<and>
   zoomLevel (onPointerMove late_pinch spread_move) \<noteq>
     min (max (initialZoomLevel late_pinch * (20 / 10)) 0.6) 2.5"
  by (simp add: late_pinch_def spread_move_def run_def initialGesture_def onPointerDown_def
      onPointerMove_def togglePinch_def mapHas_def truthy_def Let_def getDistance_horizontal)

lemma tracking1_down:
  "activePointers s = [] \<Longrightarrow>
   tracking1 pid ptype p t (onPointerDown s (pointerAt pid ptype p) t) \<and>
   \<not> isDragging (onPointerDown s (pointerAt pid ptype p) t)"
  by (simp add: tracking1_def onPointerDown_def pointerAt_def Let_def)

lemma tracking1_move:
  assumes "tracking1 pid ptype p t s"
  shows "tracking1 pid ptype p t (onPointerMove s (pointerAt pid ptype m)) \<and>
     (isDragging (onPointerMove s (pointerAt pid ptype m)) \<longleftrightarrow>
        isDragging s \<or> ptype = ''mouse'' \<or> getDistance p m > 10)"
proof -
  from assms obtain q where a: "activePointers s = [(pid, q)]"
    by (cases "activePointers s") (auto simp: tracking1_def)
  with assms show ?thesis
    by (simp add: tracking1_def onPointerMove_def pointerAt_def Let_def mapHas_def panBy_def)
qed

lemma tracking1_moves:
  "tracking1 pid ptype p t s \<Longrightarrow>
   tracking1 pid ptype p t (foldl onPointerMove s (map (pointerAt pid ptype) ms)) \<and>
   (isDragging (foldl onPointerMove s (map (pointerAt pid ptype) ms)) \<longleftrightarrow>
      isDragging s \<or> (ptype = ''mouse'' \<and> ms \<noteq> []) \<or> (\<exists>m\<in>set ms. getDistance p m > 10))"
proof (induction ms arbitrary: s)
  case Nil
  then show ?case by simp
next
  case (Cons m ms)
  from tracking1_move [OF Cons.prems, of m]
  have t: "tracking1 pid ptype p t (onPointerMove s (pointerAt pid ptype m))"
    and d: "isDragging (onPointerMove s (pointerAt pid ptype m)) \<longleftrightarrow>
        isDragging s \<or> ptype = ''mouse'' \<or> getDistance p m > 10" by simp_all
  from Cons.IH [OF t] d show ?case by auto
qed

lemma tracking1_up:
  assumes "tracking1 pid ptype p t s"
  shows "lastPointerType (onPointerUp s (pointerAt pid ptype u)) = ptype \<and>
     startDragTime (onPointerUp s (pointerAt pid ptype u)) = t \<and>
     activePointers (onPointerUp s (pointerAt pid ptype u)) = [] \<and>
     (isDragging (onPointerUp s (pointerAt pid ptype u)) \<longleftrightarrow>
        isDragging s \<and> \<not> (ptype = ''mouse'' \<and> getDistance p u < 5))"
proof -
  from assms obtain q where a: "activePointers s = [(pid, q)]"
    by (cases "activePointers s") (auto simp: tracking1_def)
  with assms show ?thesis
    by (simp add: tracking1_def onPointerUp_def pointerAt_def Let_def mapDelete_def)
qed

lemma singlePointerGesture_result:
  assumes "activePointers s0 = []"
  shows "lastPointerType (singlePointerGesture s0 pid ptype p t ms u) = ptype \<and>
     startDragTime (singlePointerGesture s0 pid ptype p t ms u) = t \<and>
     activePointers (singlePointerGesture s0 pid ptype p t ms u) = [] \<and>
     (isDragging (singlePointerGesture s0 pid ptype p t ms u) \<longleftrightarrow>
        ((ptype = ''mouse'' \<and> ms \<noteq> []) \<or> (\<exists>m\<in>set ms. getDistance p m > 10)) \<and>
        \<not> (ptype = ''mouse'' \<and> getDistance p u < 5))"
proof -
  let ?s1 = "onPointerDown s0 (pointerAt pid ptype p) t"
  let ?s2 = "foldl onPointerMove ?s1 (map (pointerAt pid ptype) ms)"
  from tracking1_down [OF assms, of pid ptype p t]
  have t1: "tracking1 pid ptype p t ?s1" and d1: "\<not> isDragging ?s1" by simp_all
  from tracking1_moves [OF t1, of ms] d1
  have t2: "tracking1 pid ptype p t ?s2"
    and d2: "isDragging ?s2 \<longleftrightarrow> (ptype = ''mouse'' \<and> ms \<noteq> []) \<or> (\<exists>m\<in>set ms. getDistance p m > 10)"
    by simp_all
  from tracking1_up [OF t2, of u] d2 show ?thesis
    by (simp add: singlePointerGesture_def)
qed

lemma handleSelectDomain_changes: "handleSelectDomain s name \<noteq> s"
proof
  assume "handleSelectDomain s name = s"
  then have "currentPath (handleSelectDomain s name) = currentPath s" by simp
  then show False by (simp add: handleSelectDomain_def navigationReset_def)
qed

text \<open>
  Claim C6. One pointer goes down on an idle controller, moves, and goes up; then a
  selection is requested at time \<open>now\<close>. For a mouse, a displacement under 5 units between
  down and up clears the drag flag and the selection is honoured whatever the time; with at
  least one move and a displacement of 5 units or more the drag flag stays set and the
  selection is suppressed. For any other device the drag flag is set exactly when some
  move was more than 10 units away from the down position, and the selection is honoured
  exactly when no move was and at most 150 ms have passed since the pointer went down.
  An honoured selection changes the state; a suppressed one leaves it as it is.
\<close>

theorem tap_or_drag:
  assumes "activePointers s0 = []"
  shows
    "(ptype = ''mouse'' \<and> getDistance downPos upPos < 5 \<longrightarrow>
        \<not> isDragging (singlePointerGesture s0 pid ptype downPos downTime moves upPos) \<and>
        handleDomainClickRequest (singlePointerGesture s0 pid ptype downPos downTime moves upPos)
            domainName now =
          handleSelectDomain (singlePointerGesture s0 pid ptype downPos downTime moves upPos)
            domainName) \<and>
     (ptype = ''mouse'' \<and> moves \<noteq> [] \<and> 5 \<le> getDistance downPos upPos \<longrightarrow>
        isDragging (singlePointerGesture s0 pid ptype downPos downTime moves upPos) \<and>
        handleDomainClickRequest (singlePointerGesture s0 pid ptype downPos downTime moves upPos)
            domainName now =
          singlePointerGesture s0 pid ptype downPos downTime moves upPos) \<and>
     (ptype \<noteq> ''mouse'' \<longrightarrow>
        (isDragging (singlePointerGesture s0 pid ptype downPos downTime moves upPos) \<longleftrightarrow>
           (\<exists>m\<in>set moves. getDistance downPos m > 10)) \<and>
        handleDomainClickRequest (singlePointerGesture s0 pid ptype downPos downTime moves upPos)
            domainName now =
          (if (\<forall>m\<in>set moves. getDistance downPos m \<le> 10) \<and> now - downTime \<le> 150
           then handleSelectDomain (singlePointerGesture s0 pid ptype downPos downTime moves upPos)
                  domainName
           else singlePointerGesture s0 pid ptype downPos downTime moves upPos)) \<and>
     handleSelectDomain (singlePointerGesture s0 pid ptype downPos downTime moves upPos) domainName \<noteq>
       singlePointerGesture s0 pid ptype downPos downTime moves upPos"
proof -
  define s3 where "s3 = singlePointerGesture s0 pid ptype downPos downTime moves upPos"
  from singlePointerGesture_result [OF assms, of pid ptype downPos downTime moves upPos]
  have l: "lastPointerType s3 = ptype" and t: "startDragTime s3 = downTime"
    and d: "isDragging s3 \<longleftrightarrow>
        ((ptype = ''mouse'' \<and> moves \<noteq> []) \<or> (\<exists>m\<in>set moves. getDistance downPos m > 10)) \<and>
        \<not> (ptype = ''mouse'' \<and> getDistance downPos upPos < 5)"
    unfolding s3_def by simp_all
  have 1: "ptype = ''mouse'' \<and> getDistance downPos upPos < 5 \<longrightarrow>
        \<not> isDragging s3 \<and> handleDomainClickRequest s3 domainName now = handleSelectDomain s3 domainName"
  proof
    assume a: "ptype = ''mouse'' \<and> getDistance downPos upPos < 5"
    with d have "\<not> isDragging s3" by blast
    moreover from a l have "lastPointerType s3 = ''mouse''" by simp
    ultimately show "\<not> isDragging s3 \<and>
        handleDomainClickRequest s3 domainName now = handleSelectDomain s3 domainName"
      by (simp add: handleDomainClickRequest_def)
  qed
  have 2: "ptype = ''mouse'' \<and> moves \<noteq> [] \<and> 5 \<le> getDistance downPos upPos \<longrightarrow>
        isDragging s3 \<and> handleDomainClickRequest s3 domainName now = s3"
  proof
    assume a: "ptype = ''mouse'' \<and> moves \<noteq> [] \<and> 5 \<le> getDistance downPos upPos"
    then have "\<not> getDistance downPos upPos < 5" by simp
    with a d have "isDragging s3" by blast
    then show "isDragging s3 \<and> handleDomainClickRequest s3 domainName now = s3"
      by (simp add: handleDomainClickRequest_def)
  qed
  have 3: "ptype \<noteq> ''mouse'' \<longrightarrow>
        (isDragging s3 \<longleftrightarrow> (\<exists>m\<in>set moves. getDistance downPos m > 10)) \<and>
        handleDomainClickRequest s3 domainName now =
          (if (\<forall>m\<in>set moves. getDistance downPos m \<le> 10) \<and> now - downTime \<le> 150
           then handleSelectDomain s3 domainName else s3)"
  proof
    assume a: "ptype \<noteq> ''mouse''"
    with d have d': "isDragging s3 \<longleftrightarrow> (\<exists>m\<in>set moves. getDistance downPos m > 10)" by blast
    then have d'': "\<not> isDragging s3 \<longleftrightarrow> (\<forall>m\<in>set moves. getDistance downPos m \<le> 10)"
      by (auto simp: not_less)
    from a l have l': "lastPointerType s3 \<noteq> ''mouse''" by simp
    have "handleDomainClickRequest s3 domainName now =
          (if \<not> isDragging s3 \<and> now - downTime \<le> 150
           then handleSelectDomain s3 domainName else s3)"
      using l' t by (simp add: handleDomainClickRequest_def not_less)
    with d' d'' show "(isDragging s3 \<longleftrightarrow> (\<exists>m\<in>set moves. getDistance downPos m > 10)) \<and>
        handleDomainClickRequest s3 domainName now =
          (if (\<forall>m\<in>set moves. getDistance downPos m \<le> 10) \<and> now - downTime \<le> 150
           then handleSelectDomain s3 domainName else s3)"
      by simp
  qed
  from 1 2 3 handleSelectDomain_changes [of s3 domainName] show ?thesis
    unfolding s3_def by blast
qed

text \<open>
  The examples of the claim: a mouse click with a move of 3 units, a mouse drag of 50
  units, a touch tap requested after 80 ms and a touch hold requested after 300 ms.
\<close>

theorem tap_or_drag_witness:
  "activePointers (initialGesture []) = [] \<and>
   handleDomainClickRequest
     (singlePointerGesture (initialGesture []) 1 ''mouse'' (0, 0) 0 [(3, 0)] (3, 0)) ''Art'' 400 =
   handleSelectDomain
     (singlePointerGesture (initialGesture []) 1 ''mouse'' (0, 0) 0 [(3, 0)] (3, 0)) ''Art'' \<and>
   handleDomainClickRequest
     (singlePointerGesture (initialGesture []) 1 ''mouse'' (0, 0) 0 [(50, 0)] (50, 0)) ''Art'' 400 =
   singlePointerGesture (initialGesture []) 1 ''mouse'' (0, 0) 0 [(50, 0)] (50, 0) \<and>
   handleDomainClickRequest
     (singlePointerGesture (initialGesture []) 1 ''touch'' (0, 0) 0 [(3, 0)] (3, 0)) ''Art'' 80 =
   handleSelectDomain
     (singlePointerGesture (initialGesture []) 1 ''touch'' (0, 0) 0 [(3, 0)] (3, 0)) ''Art'' \<and>
   handleDomainClickRequest
     (singlePointerGesture (initialGesture []) 1 ''touch'' (0, 0) 0 [(3, 0)] (3, 0)) ''Art'' 300 =
   singlePointerGesture (initialGesture []) 1 ''touch'' (0, 0) 0 [(3, 0)] (3, 0)"
proof -
  have idle: "activePointers (initialGesture []) = []" by (simp add: initialGesture_def)
  note t = tap_or_drag [OF idle, where pid = 1 and downPos = "(0, 0)" and downTime = 0
      and domainName = "''Art''"]
  from t [where ptype = "''mouse''" and moves = "[(3, 0)]" and upPos = "(3, 0)" and now = 400]
  have a: "handleDomainClickRequest
     (singlePointerGesture (initialGesture []) 1 ''mouse'' (0, 0) 0 [(3, 0)] (3, 0)) ''Art'' 400 =
   handleSelectDomain
     (singlePointerGesture (initialGesture []) 1 ''mouse'' (0, 0) 0 [(3, 0)] (3, 0)) ''Art''"
    by (simp add: getDistance_horizontal)
  from t [where ptype = "''mouse''" and moves = "[(50, 0)]" and upPos = "(50, 0)" and now = 400]
  have b: "handleDomainClickRequest
     (singlePointerGesture (initialGesture []) 1 ''mouse'' (0, 0) 0 [(50, 0)] (50, 0)) ''Art'' 400 =
   singlePointerGesture (initialGesture []) 1 ''mouse'' (0, 0) 0 [(50, 0)] (50, 0)"
    by (simp add: getDistance_horizontal)
  from t [where ptype = "''touch''" and moves = "[(3, 0)]" and upPos = "(3, 0)" and now = 80]
  have c: "handleDomainClickRequest
     (singlePointerGesture (initialGesture []) 1 ''touch'' (0, 0) 0 [(3, 0)] (3, 0)) ''Art'' 80 =
   handleSelectDomain
     (singlePointerGesture (initialGesture []) 1 ''touch'' (0, 0) 0 [(3, 0)] (3, 0)) ''Art''"
    by (simp add: getDistance_horizontal)
  from t [where ptype = "''touch''" and moves = "[(3, 0)]" and upPos = "(3, 0)" and now = 300]
  have d: "handleDomainClickRequest
     (singlePointerGesture (initialGesture []) 1 ''touch'' (0, 0) 0 [(3, 0)] (3, 0)) ''Art'' 300 =
   singlePointerGesture (initialGesture []) 1 ''touch'' (0, 0) 0 [(3, 0)] (3, 0)"
    by (simp add: getDistance_horizontal)
  from idle a b c d show ?thesis by simp
qed

text \<open>
  Claim C9 does not hold for \<open>onPointerUp\<close>, which has no check that the pointer is active
  (\<open>onPointerMove\<close> has one). While one finger is down and has not moved, an up event for
  a pointer that never went down takes the branch for \<open>one finger remains\<close> and sets the
  drag flag; the tap that follows is then suppressed, where without the stray event it
  is honoured. The move event for the same unknown pointer is ignored.
\<close>

theorem stray_pointer_up_changes_state:
  "\<not> mapHas (activePointers (run (initialGesture []) [PointerDown touch_down 0])) (pointerId stray_up) \<and>
   \<not> isDragging (run (initialGesture []) [PointerDown touch_down 0]) \<and>
   isDragging (run (initialGesture []) [PointerDown touch_down 0, PointerUp stray_up]) \<and>
   run (initialGesture []) [PointerDown touch_down 0, PointerMove stray_up] =
     run (initialGesture []) [PointerDown touch_down 0] \<and>
   currentPath (run (initialGesture [])
      [PointerDown touch_down 0, PointerUp touch_down, ClickRequest ''Art'' 80]) = [''Art''] \<and>
   currentPath (run (initialGesture [])
      [PointerDown touch_down 0, PointerUp stray_up, PointerUp touch_down,
       ClickRequest ''Art'' 80]) = []"
  by (simp add: run_def initialGesture_def touch_down_def stray_up_def onPointerDown_def
      onPointerUp_def onPointerMove_def handleDomainClickRequest_def handleSelectDomain_def
      navigationReset_def mapHas_def mapDelete_def Let_def)

section \<open>Claims about the layout engine\<close>

lemma sqrt_one_plus_quot:
  assumes "x \<noteq> 0"
  shows "sqrt (1 + (y / x)\<^sup>2) = sqrt (x * x + y * y) / \<bar>x\<bar>"
proof -
  have "1 + (y / x)\<^sup>2 = (x * x + y * y) / (x * x)"
    using assms by (simp add: field_simps power2_eq_square)
  then show ?thesis by (simp add: real_sqrt_divide)
qed

lemma cos_sin_atan2:
  assumes "x \<noteq> 0 \<or> y \<noteq> 0"
  shows "cos (atan2 y x) = x / sqrt (x * x + y * y)"
    and "sin (atan2 y x) = y / sqrt (x * x + y * y)"
proof -
  let ?r = "sqrt (x * x + y * y)"
  have c: "x \<noteq> 0 \<Longrightarrow> cos (arctan (y / x)) = \<bar>x\<bar> / ?r"
    by (simp add: cos_arctan sqrt_one_plus_quot)
  have s: "x \<noteq> 0 \<Longrightarrow> sin (arctan (y / x)) = (y / x) * \<bar>x\<bar> / ?r"
    by (simp add: sin_arctan sqrt_one_plus_quot)
  consider "0 < x" | "x < 0" "0 \<le> y" | "x < 0" "y < 0" | "x = 0" "0 < y" | "x = 0" "y < 0"
    using assms by linarith
  then have "cos (atan2 y x) = x / ?r \<and> sin (atan2 y x) = y / ?r"
  proof cases
    case 1
    with c s show ?thesis by (simp add: atan2_def)
  next
    case 2
    with c s show ?thesis by (simp add: atan2_def)
  next
    case 3
    with c s show ?thesis by (simp add: atan2_def)
  next
    case 4
    then show ?thesis by (simp add: atan2_def)
  next
    case 5
    then show ?thesis by (simp add: atan2_def)
  qed
  then show "cos (atan2 y x) = x / ?r" and "sin (atan2 y x) = y / ?r" by simp_all
qed

lemma sqrt_scaled: "sqrt ((c * a) * (c * a) + (c * b) * (c * b)) = \<bar>c\<bar> * sqrt (a * a + b * b)"
proof -
  have "(c * a) * (c * a) + (c * b) * (c * b) = (c * c) * (a * a + b * b)"
    by (simp add: algebra_simps)
  then show ?thesis by (simp add: real_sqrt_mult)
qed


lemma attract_xy:
  "n_x (attract cR node) =
     (if sqrt ((50 - n_x node) * (50 - n_x node) + (50 - n_y node) * (50 - n_y node))
           < cR + n_radius node + 4 \<and>
         0 < sqrt ((50 - n_x node) * (50 - n_x node) + (50 - n_y node) * (50 - n_y node))
      then n_x node + (50 - n_x node) * 0.015 -
           (cR + n_radius node + 4 -
              sqrt ((50 - n_x node) * (50 - n_x node) + (50 - n_y node) * (50 - n_y node))) *
           cos (atan2 (50 - n_y node) (50 - n_x node))
      else n_x node + (50 - n_x node) * 0.015)"
  "n_y (attract cR node) =
     (if sqrt ((50 - n_x node) * (50 - n_x node) + (50 - n_y node) * (50 - n_y node))
           < cR + n_radius node + 4 \<and>
         0 < sqrt ((50 - n_x node) * (50 - n_x node) + (50 - n_y node) * (50 - n_y node))
      then n_y node + (50 - n_y node) * 0.015 -
           (cR + n_radius node + 4 -
              sqrt ((50 - n_x node) * (50 - n_x node) + (50 - n_y node) * (50 - n_y node))) *
           sin (atan2 (50 - n_y node) (50 - n_x node))
      else n_y node + (50 - n_y node) * 0.015)"
  by (simp_all add: attract_def Let_def)

text \<open>What the pull and the exclusion push do to the distance from the centre.\<close>

lemma attract_distance:
  "centerDistance (attract cR node) =
     (if 0 < centerDistance node \<and> centerDistance node < cR + n_radius node + 4
      then cR + n_radius node + 4 - 0.015 * centerDistance node
      else 0.985 * centerDistance node)"
proof -
  define dx dy where "dx = 50 - n_x node" and "dy = 50 - n_y node"
  define d where "d = sqrt (dx * dx + dy * dy)"
  define m where "m = cR + n_radius node + 4"
  have d0: "0 \<le> d" by (simp add: d_def)
  have cd: "centerDistance node = d" by (simp add: centerDistance_def d_def dx_def dy_def)
  have ax: "n_x (attract cR node) =
      (if d < m \<and> 0 < d then n_x node + dx * 0.015 - (m - d) * cos (atan2 dy dx)
       else n_x node + dx * 0.015)"
    and ay: "n_y (attract cR node) =
      (if d < m \<and> 0 < d then n_y node + dy * 0.015 - (m - d) * sin (atan2 dy dx)
       else n_y node + dy * 0.015)"
    unfolding d_def m_def dx_def dy_def by (rule attract_xy)+
  show ?thesis
  proof (cases "0 < d \<and> d < m")
    case False
    then have "n_x (attract cR node) = n_x node + dx * 0.015"
      "n_y (attract cR node) = n_y node + dy * 0.015" by (auto simp: ax ay)
    then have x: "50 - n_x (attract cR node) = 0.985 * dx"
      and y: "50 - n_y (attract cR node) = 0.985 * dy"
      by (simp_all add: dx_def dy_def field_simps)
    have "sqrt ((0.985 * dx) * (0.985 * dx) + (0.985 * dy) * (0.985 * dy)) = 0.985 * d"
      unfolding sqrt_scaled d_def by simp
    then have "centerDistance (attract cR node) = 0.985 * d"
      unfolding centerDistance_def x y .
    with False show ?thesis unfolding cd m_def [symmetric] by auto
  next
    case True
    then have 3: "0 < d" "d < m" by simp_all
    then have nz: "dx \<noteq> 0 \<or> dy \<noteq> 0" by (auto simp: d_def)
    have cs: "cos (atan2 dy dx) = dx / d" "sin (atan2 dy dx) = dy / d"
      using cos_sin_atan2 [OF nz] by (simp_all add: d_def)
    define c where "c = (m - 0.015 * d) / d"
    have cpos: "0 < c" using 3 by (simp add: c_def)
    have cdd: "c * d = m - 0.015 * d" using 3 by (simp add: c_def)
    have c': "c = 0.985 + (m - d) / d" using 3 by (simp add: c_def field_simps)
    define tx ty where "tx = ((m - d) / d) * dx" and "ty = ((m - d) / d) * dy"
    have "n_x (attract cR node) = n_x node + dx * 0.015 - tx"
      "n_y (attract cR node) = n_y node + dy * 0.015 - ty"
      using 3 by (simp_all add: ax ay cs tx_def ty_def)
    then have "50 - n_x (attract cR node) = 0.985 * dx + tx"
      "50 - n_y (attract cR node) = 0.985 * dy + ty"
      by (simp_all add: dx_def dy_def field_simps)
    then have x: "50 - n_x (attract cR node) = c * dx"
      and y: "50 - n_y (attract cR node) = c * dy"
      by (simp_all add: c' tx_def ty_def distrib_right)
    have "sqrt ((c * dx) * (c * dx) + (c * dy) * (c * dy)) = c * d"
      unfolding sqrt_scaled d_def using cpos by simp
    then have "centerDistance (attract cR node) = m - 0.015 * d"
      unfolding centerDistance_def x y cdd .
    with True show ?thesis unfolding cd m_def [symmetric] by simp
  qed
qed







text \<open>
  Inside its exclusion distance \<open>m\<close> a node is moved towards the distance \<open>m / 1.015\<close>, where
  the pull and the exclusion push cancel: its gap to that distance shrinks by the factor
  0.015 in every round and changes sign, so over the reals the node comes to rest only
  where it already is at rest.
\<close>

lemma attract_rest:
  assumes "0 < centerDistance node" "centerDistance node < cR + n_radius node + 4"
  shows "centerDistance (attract cR node) - (cR + n_radius node + 4) / 1.015 =
     - 0.015 * (centerDistance node - (cR + n_radius node + 4) / 1.015)"
  unfolding attract_distance using assms by (simp add: field_simps)




























end
